theory Spec2Isabelle
  imports Main "HOL-Library.Word"
begin

unbundle bit_operations_syntax

section \<open>The space bitmap of runtime/gc/accounting/space_bitmap.h\<close>

text \<open>
  The embedding is for an LP64 target: \<open>uintptr_t\<close>, \<open>size_t\<close> and \<open>uint64_t\<close> are
  64-bit unsigned words whose arithmetic wraps, \<open>sizeof(intptr_t)\<close> is 8 and
  \<open>kBitsPerIntPtrT\<close> is 64. The template parameter \<open>kAlignment\<close> is the first
  argument of every function that depends on it.
\<close>

type_synonym uintptr_t = "64 word"
type_synonym size_t = "64 word"

definition kBitsPerIntPtrT :: "64 word" where
  "kBitsPerIntPtrT = 64"

definition sizeof_intptr_t :: "64 word" where
  "sizeof_intptr_t = 8"

text \<open>
  The data members of the class. \<open>mem_map\<close> is the backing storage, read as the array of
  words that \<open>bitmap_begin\<close> points to; \<open>bitmap_begin\<close> is the pointer itself, with 0
  for \<open>nullptr\<close>.
\<close>

record SpaceBitmap =
  mem_map :: "uintptr_t list"
  bitmap_begin :: uintptr_t
  bitmap_size :: size_t
  heap_begin :: uintptr_t
  heap_limit :: uintptr_t
  name :: string

subsection \<open>Addressing arithmetic\<close>

definition OffsetToIndex :: "size_t \<Rightarrow> size_t \<Rightarrow> size_t" where
  "OffsetToIndex kAlignment offset = offset div kAlignment div kBitsPerIntPtrT"

definition IndexToOffset :: "size_t \<Rightarrow> 64 word \<Rightarrow> 64 word" where
  "IndexToOffset kAlignment index = index * kAlignment * kBitsPerIntPtrT"

definition OffsetBitIndex :: "size_t \<Rightarrow> uintptr_t \<Rightarrow> uintptr_t" where
  "OffsetBitIndex kAlignment offset = (offset div kAlignment) mod kBitsPerIntPtrT"

definition OffsetToMask :: "size_t \<Rightarrow> uintptr_t \<Rightarrow> uintptr_t" where
  "OffsetToMask kAlignment offset = push_bit (unat (OffsetBitIndex kAlignment offset)) 1"

subsection \<open>Queries and size bookkeeping\<close>

definition HasAddress :: "size_t \<Rightarrow> SpaceBitmap \<Rightarrow> uintptr_t \<Rightarrow> bool" where
  "HasAddress kAlignment b obj =
     (let offset = obj - heap_begin b;
          index = OffsetToIndex kAlignment offset
      in index < bitmap_size b div sizeof_intptr_t)"

definition Size :: "SpaceBitmap \<Rightarrow> size_t" where
  "Size b = bitmap_size b"

definition HeapSize :: "size_t \<Rightarrow> SpaceBitmap \<Rightarrow> 64 word" where
  "HeapSize kAlignment b = IndexToOffset kAlignment (Size b div sizeof_intptr_t)"

definition HeapBegin :: "SpaceBitmap \<Rightarrow> uintptr_t" where
  "HeapBegin b = heap_begin b"

definition HeapLimit :: "SpaceBitmap \<Rightarrow> 64 word" where
  "HeapLimit b = heap_limit b"

datatype fatal = CheckFailed

text \<open>\<open>SetHeapSize\<close>: the two assignments, then \<open>CHECK_EQ(HeapSize(), bytes)\<close>, which aborts.\<close>

definition SetHeapSize :: "size_t \<Rightarrow> SpaceBitmap \<Rightarrow> size_t \<Rightarrow> fatal + SpaceBitmap" where
  "SetHeapSize kAlignment b bytes =
     (let b' = b\<lparr>heap_limit := heap_begin b + bytes,
                 bitmap_size := OffsetToIndex kAlignment bytes * sizeof_intptr_t\<rparr>
      in if HeapSize kAlignment b' = bytes then Inr b' else Inl CheckFailed)"

definition IsValid :: "SpaceBitmap \<Rightarrow> bool" where
  "IsValid b = (bitmap_begin b \<noteq> 0)"

text \<open>\<open>SpaceBitmap() = default\<close> with the default member initializers.\<close>

definition SpaceBitmap_default :: SpaceBitmap where
  "SpaceBitmap_default =
     \<lparr>mem_map = [], bitmap_begin = 0, bitmap_size = 0, heap_begin = 0, heap_limit = 0,
      name = []\<rparr>"

subsection \<open>Linear slot enumeration\<close>

text \<open>
  \<open>VisitRange\<close>: \<open>for (; visit_begin < visit_end; visit_begin += kAlignment) visitor(visit_begin)\<close>.
  The visitor is a state transformer. The addition wraps, so the loop need not end: the
  first argument bounds the number of loop tests, and \<open>None\<close> says the bound was reached.
\<close>

fun VisitRange ::
  "nat \<Rightarrow> size_t \<Rightarrow> uintptr_t \<Rightarrow> uintptr_t \<Rightarrow> ('s \<Rightarrow> uintptr_t \<Rightarrow> 's) \<Rightarrow> 's \<Rightarrow> 's option" where
  "VisitRange 0 kAlignment visit_begin visit_end visitor s = None"
| "VisitRange (Suc fuel) kAlignment visit_begin visit_end visitor s =
     (if visit_begin < visit_end
      then VisitRange fuel kAlignment (visit_begin + kAlignment) visit_end visitor
             (visitor s visit_begin)
      else Some s)"

text \<open>
  The number of visitor calls of \<open>VisitRange\<close> when no address wraps: the number of
  \<open>k\<close> with \<open>visit_begin + k * kAlignment < visit_end\<close>.
\<close>

definition VisitRange_count :: "size_t \<Rightarrow> uintptr_t \<Rightarrow> uintptr_t \<Rightarrow> nat" where
  "VisitRange_count kAlignment visit_begin visit_end =
     (unat visit_end - unat visit_begin + unat kAlignment - 1) div unat kAlignment"

subsection \<open>The size of the backing store\<close>

text \<open>
  Modelled from the spec: \<open>ComputeBitmapSize\<close> is declared in the header and defined
  elsewhere. The spec sizes the backing store as
  \<open>ceil(capacity / alignment / wordBits) * wordSize\<close> bytes.
\<close>

definition ComputeBitmapSize :: "nat \<Rightarrow> nat \<Rightarrow> nat" where
  "ComputeBitmapSize kAlignment capacity =
     (capacity + kAlignment * 64 - 1) div (kAlignment * 64) * 8"

text \<open>
  Modelled from the spec: the constructor and the factories are declared in the header
  and defined elsewhere, so the state they establish is taken from the spec's data model.
  A bitmap in use is valid (non-null store), its limit is not below its begin,
  \<open>bitmap_size\<close> is the capacity \<open>heap_limit - heap_begin\<close> rounded up to whole words,
  the backing storage holds those words, and the covered range, rounded up to whole
  bitmap words, lies inside the address space.
\<close>

definition SpaceBitmap_inv :: "size_t \<Rightarrow> SpaceBitmap \<Rightarrow> bool" where
  "SpaceBitmap_inv kAlignment b \<longleftrightarrow>
     kAlignment \<noteq> 0 \<and> IsValid b \<and> heap_begin b \<le> heap_limit b \<and>
     unat (bitmap_size b) =
       ComputeBitmapSize (unat kAlignment) (unat (heap_limit b - heap_begin b)) \<and>
     unat (bitmap_size b) div 8 \<le> length (mem_map b) \<and>
     unat (heap_begin b) + unat (bitmap_size b) div 8 * unat kAlignment * 64 \<le> 2 ^ 64"

section \<open>Bit mutation and query\<close>

text \<open>
  Modelled from the spec: \<open>Test\<close> is declared in the header and defined elsewhere. The
  spec (4.2) makes it a load of the target word, masked with the bit mask of the offset,
  under the precondition \<open>HasAddress\<close>; a precondition violation is fatal (7). The target
  word is \<open>bitmap_begin[OffsetToIndex(offset)]\<close>; reading outside the backing storage or
  through a null pointer is a violation too.
\<close>

definition Test :: "size_t \<Rightarrow> SpaceBitmap \<Rightarrow> uintptr_t \<Rightarrow> fatal + bool" where
  "Test kAlignment b obj =
     (let offset = obj - heap_begin b;
          index = unat (OffsetToIndex kAlignment offset)
      in if IsValid b \<and> HasAddress kAlignment b obj \<and> index < length (mem_map b)
         then Inr ((mem_map b ! index) AND OffsetToMask kAlignment offset \<noteq> 0)
         else Inl CheckFailed)"

text \<open>
  Modelled from the spec: \<open>Modify<kSetBit>\<close> is declared in the header and defined
  elsewhere. The spec (4.2) makes \<open>Set\<close> and \<open>Clear\<close> a read-modify-write of the target
  word with OR, respectively AND-NOT, of the bit mask, returning the bit's prior value;
  an address outside the covered range is fatal (7). The result is the prior value
  and the bitmap with the word replaced.
\<close>

definition Modify ::
  "bool \<Rightarrow> size_t \<Rightarrow> SpaceBitmap \<Rightarrow> uintptr_t \<Rightarrow> fatal + bool \<times> SpaceBitmap" where
  "Modify kSetBit kAlignment b obj =
     (let offset = obj - heap_begin b;
          index = unat (OffsetToIndex kAlignment offset);
          mask = OffsetToMask kAlignment offset
      in if IsValid b \<and> HasAddress kAlignment b obj \<and> index < length (mem_map b)
         then let old_word = mem_map b ! index;
                  new_word = (if kSetBit then old_word OR mask else old_word AND NOT mask)
              in Inr (old_word AND mask \<noteq> 0, b\<lparr>mem_map := (mem_map b)[index := new_word]\<rparr>)
         else Inl CheckFailed)"

text \<open>\<open>Set\<close> is \<open>Modify<true>\<close> and \<open>Clear\<close> is \<open>Modify<false>\<close>, as in the header.\<close>

definition Set :: "size_t \<Rightarrow> SpaceBitmap \<Rightarrow> uintptr_t \<Rightarrow> fatal + bool \<times> SpaceBitmap" where
  "Set kAlignment b obj = Modify True kAlignment b obj"

definition Clear :: "size_t \<Rightarrow> SpaceBitmap \<Rightarrow> uintptr_t \<Rightarrow> fatal + bool \<times> SpaceBitmap" where
  "Clear kAlignment b obj = Modify False kAlignment b obj"

text \<open>
  Two bitmaps agree on their bounds and on every bit of the backing storage other than
  bit \<open>n\<close> of word \<open>index\<close>.
\<close>

definition same_bits_except :: "SpaceBitmap \<Rightarrow> SpaceBitmap \<Rightarrow> nat \<Rightarrow> nat \<Rightarrow> bool" where
  "same_bits_except b b' index n \<longleftrightarrow>
     length (mem_map b') = length (mem_map b) \<and>
     bitmap_begin b' = bitmap_begin b \<and> bitmap_size b' = bitmap_size b \<and>
     heap_begin b' = heap_begin b \<and> heap_limit b' = heap_limit b \<and>
     (\<forall>i j. i < length (mem_map b) \<and> (i \<noteq> index \<or> j \<noteq> n) \<longrightarrow>
        bit (mem_map b' ! i) j = bit (mem_map b ! i) j)"

section \<open>Range visiting\<close>

text \<open>
  Modelled from the spec: \<open>VisitMarkedRange\<close> is declared in the header and defined
  elsewhere. The spec (4.3) has it scan whole backing words, enumerate the set bits of a
  word by count-trailing-zeros extraction, and mask off, in the first and the last word,
  the bits outside \<open>[begin, end)\<close>. The default mode is modelled; the \<open>visitOnce\<close> mode
  is not.

  \<open>CTZ\<close> counts trailing zeros. \<open>VisitWordBits\<close> is the extraction loop on one word:
  visit the address of the lowest set bit, clear that bit, repeat until the word is 0.
\<close>

definition CTZ :: "uintptr_t \<Rightarrow> nat" where
  "CTZ w = length (takeWhile (\<lambda>i. \<not> bit w i) [0..<64])"

function VisitWordBits ::
  "size_t \<Rightarrow> uintptr_t \<Rightarrow> ('s \<Rightarrow> uintptr_t \<Rightarrow> 's) \<Rightarrow> uintptr_t \<Rightarrow> 's \<Rightarrow> 's" where
  "VisitWordBits kAlignment ptr_base visitor w s =
     (if w = 0 then s
      else let shift = CTZ w
           in VisitWordBits kAlignment ptr_base visitor (w XOR push_bit shift 1)
                (visitor s (ptr_base + of_nat shift * kAlignment)))"
  by pat_completeness auto
termination
proof (relation "measure (\<lambda>(kAlignment, ptr_base, visitor, w, s). unat w)")
  show "wf (measure (\<lambda>(kAlignment, ptr_base, visitor, w, s). unat w))" by simp
next
  fix kAlignment ptr_base :: "64 word" and visitor :: "'s \<Rightarrow> 64 word \<Rightarrow> 's"
    and w :: "64 word" and s :: 's and shift :: nat
  assume nz: "w \<noteq> 0" and sh: "shift = CTZ w"
  have "\<exists>i<64. bit w i"
  proof (rule ccontr)
    assume "\<not> (\<exists>i<64. bit w i)"
    then have "w = 0" by (intro bit_eqI) (auto dest: bit_imp_le_length)
    then show False using nz by simp
  qed
  then obtain i where i: "i < 64" "bit w i" by blast
  have "takeWhile (\<lambda>i. \<not> bit w i) [0..<64] \<noteq> [0..<64]"
  proof
    assume "takeWhile (\<lambda>i. \<not> bit w i) [0..<64] = [0..<64]"
    then have "\<forall>x\<in>set [0..<64]. \<not> bit w x" by (simp only: takeWhile_eq_all_conv)
    moreover have "i \<in> set [0..<64]" using i(1) by simp
    ultimately show False using i(2) by blast
  qed
  moreover have "takeWhile (\<lambda>i. \<not> bit w i) [0..<64] =
                 take (length (takeWhile (\<lambda>i. \<not> bit w i) [0..<64])) [0..<64]"
    by (rule takeWhile_eq_take)
  ultimately have "length (takeWhile (\<lambda>i. \<not> bit w i) [0..<64]) \<noteq> length [0..<64]"
    by (metis take_all order_refl)
  then have lt: "shift < length [0..<64]"
    using length_takeWhile_le[of "\<lambda>i. \<not> bit w i" "[0..<64]"] by (simp add: sh CTZ_def)
  then have "\<not> \<not> bit w ([0..<64] ! shift)"
    unfolding sh CTZ_def by (rule nth_length_takeWhile)
  then have b: "bit w shift" using lt by simp
  have lt64: "shift < 64" using lt by simp
  have e: "w XOR push_bit shift 1 = w AND NOT (push_bit shift 1)"
    using b lt64 by (intro bit_eqI) (auto simp: bit_simps)
  have "w AND NOT (push_bit shift 1) \<le> w" by (rule word_and_le2)
  moreover have "w AND NOT (push_bit shift 1) \<noteq> w"
  proof
    assume "w AND NOT (push_bit shift 1) = w"
    then have "bit (w AND NOT (push_bit shift 1)) shift" using b by simp
    then show False using lt64 by (simp add: bit_simps)
  qed
  ultimately have "w AND NOT (push_bit shift 1) < w" by (rule order.not_eq_order_implies_strict[OF _ _, rotated -1])
  then have "w XOR push_bit shift 1 < w" by (simp only: e)
  then show "((kAlignment, ptr_base, visitor, w XOR push_bit shift 1,
               visitor s (ptr_base + of_nat shift * kAlignment)),
              (kAlignment, ptr_base, visitor, w, s))
             \<in> measure (\<lambda>(kAlignment, ptr_base, visitor, w, s). unat w)"
    by (simp add: word_less_nat_alt)
qed

declare VisitWordBits.simps [simp del]

text \<open>
  The index of the first slot whose address is not below \<open>heap_begin + offset\<close>: the
  offset divided by the alignment, rounded up. A bit is outside \<open>[begin, end)\<close> exactly
  when its slot index is below that of \<open>begin\<close> or not below that of \<open>end\<close>.
\<close>

definition SlotCeil :: "size_t \<Rightarrow> uintptr_t \<Rightarrow> nat" where
  "SlotCeil kAlignment offset = (unat offset + unat kAlignment - 1) div unat kAlignment"

text \<open>The address of bit 0 of word \<open>index\<close>: \<open>IndexToOffset(index) + heap_begin\<close>.\<close>

definition WordBase :: "size_t \<Rightarrow> SpaceBitmap \<Rightarrow> nat \<Rightarrow> uintptr_t" where
  "WordBase kAlignment b index = heap_begin b + IndexToOffset kAlignment (of_nat index)"

text \<open>
  The scan. A range outside \<open>[heap_begin, heap_limit]\<close>, an inverted range, an invalid
  bitmap and a range whose words are not in the backing storage are fatal. The left edge
  is the first word with the bits below \<open>begin\<close> masked off; the right edge is the last
  word with the bits from \<open>end\<close> on masked off, and is not read when \<open>end\<close> starts a word;
  the words in between are visited whole.
\<close>

definition VisitMarkedRange ::
  "size_t \<Rightarrow> SpaceBitmap \<Rightarrow> uintptr_t \<Rightarrow> uintptr_t \<Rightarrow> ('s \<Rightarrow> uintptr_t \<Rightarrow> 's) \<Rightarrow> 's
   \<Rightarrow> fatal + 's" where
  "VisitMarkedRange kAlignment b visit_begin visit_end visitor s =
     (let offset_start = visit_begin - heap_begin b;
          offset_end = visit_end - heap_begin b;
          slot_start = SlotCeil kAlignment offset_start;
          slot_end = SlotCeil kAlignment offset_end;
          index_start = slot_start div 64;
          index_end = slot_end div 64;
          bit_start = slot_start mod 64;
          bit_end = slot_end mod 64
      in if \<not> (IsValid b \<and> heap_begin b \<le> visit_begin \<and> visit_begin \<le> visit_end \<and>
                visit_end \<le> heap_limit b \<and> slot_end \<le> 64 * length (mem_map b))
         then Inl CheckFailed
         else if slot_end \<le> slot_start then Inr s
         else
           let left_edge = (mem_map b ! index_start) AND NOT (mask bit_start)
           in if index_start < index_end
              then
                let s1 = VisitWordBits kAlignment (WordBase kAlignment b index_start) visitor
                           left_edge s;
                    s2 = foldl (\<lambda>s i. VisitWordBits kAlignment (WordBase kAlignment b i) visitor
                                        (mem_map b ! i) s)
                           s1 [Suc index_start..<index_end];
                    right_edge = (if bit_end = 0 then 0 else mem_map b ! index_end)
                                 AND mask bit_end
                in Inr (VisitWordBits kAlignment (WordBase kAlignment b index_end) visitor
                          right_edge s2)
              else Inr (VisitWordBits kAlignment (WordBase kAlignment b index_start) visitor
                          (left_edge AND mask bit_end) s))"

section \<open>Dual-bitmap sweep\<close>

text \<open>
  Modelled from the spec: \<open>SweepWalk\<close> is declared in the header and defined elsewhere.
  The spec (4.5) makes it an algorithm over two bitmaps of identical alignment that cover
  the range \<open>[base, max)\<close>: every aligned slot address whose bit is set in \<open>live\<close> and
  clear in \<open>mark\<close> is reported. The garbage bits of a word pair are found as
  \<open>liveWord AND NOT markWord\<close>; their addresses are accumulated in a buffer of fixed
  capacity, and the callback is called once per full buffer and once for a final partial
  one. The header comment has the callback called zero or more times.

  The two bitmaps are compared over a shared address range (spec 2): the words are paired
  by index, and the addresses are those of \<open>live\<close>. The sweep covers \<open>[base, max)\<close>: of
  the first and the last word pair, only the bits of the slots of that range are kept, by
  the masks that \<open>VisitMarkedRange\<close> applies to its first and last word (spec 4.3). The
  slots of the range are counted as there, from \<open>SlotCeil\<close> of \<open>base\<close> up to, and not
  including, \<open>SlotCeil\<close> of \<open>max\<close>. \<open>RangeMask\<close> has, for one word, the bits whose slot
  is in the range; it is all ones for a word inside the range.

  The capacity of the buffer is the parameter \<open>buffer_size\<close>; the buffer counts as full
  when it has no room for the 64 addresses of another word. The callback is a state
  transformer that takes a batch. \<open>SweepWords\<close> is the loop over the word indices, on the
  pair of the buffer and the callback's state.
\<close>

definition RangeMask :: "nat \<Rightarrow> nat \<Rightarrow> nat \<Rightarrow> uintptr_t" where
  "RangeMask slot_start slot_end index =
     NOT (mask (slot_start - 64 * index)) AND mask (slot_end - 64 * index)"



section \<open>Slots\<close>

text \<open>
  The vocabulary of the proofs. Slot \<open>k\<close> is the \<open>k\<close>-th aligned address from
  \<open>heap_begin\<close>; its bit is bit \<open>k mod 64\<close> of word \<open>k div 64\<close>. \<open>WordSlots\<close> lists the
  addresses of the set bits of one word, ascending. \<open>GarbageBitmap\<close> holds, word for
  word, the bits of the slots of a range that are set in \<open>live\<close> and clear in \<open>mark\<close>.
\<close>

definition SlotMarked :: "SpaceBitmap \<Rightarrow> nat \<Rightarrow> bool" where
  "SlotMarked b k = bit (mem_map b ! (k div 64)) (k mod 64)"

definition SlotAddr :: "size_t \<Rightarrow> SpaceBitmap \<Rightarrow> nat \<Rightarrow> uintptr_t" where
  "SlotAddr kAlignment b k = heap_begin b + of_nat k * kAlignment"


definition GarbageBitmap :: "SpaceBitmap \<Rightarrow> SpaceBitmap \<Rightarrow> nat \<Rightarrow> nat \<Rightarrow> SpaceBitmap" where
  "GarbageBitmap live mark slot_start slot_end =
     live\<lparr>mem_map :=
       map (\<lambda>i. ((mem_map live ! i) AND NOT (mem_map mark ! i)) AND RangeMask slot_start slot_end i)
         [0..<min (length (mem_map live)) (length (mem_map mark))]\<rparr>"

text \<open>
  A concrete bitmap with alignment 8 over the 1024 bytes from \<open>0x1000\<close>: 128 slots in
  two words.
\<close>

definition bitmap_1k :: "uintptr_t list \<Rightarrow> SpaceBitmap" where
  "bitmap_1k ws =
     \<lparr>mem_map = ws, bitmap_begin = 0x7000, bitmap_size = 16,
      heap_begin = 0x1000, heap_limit = 0x1400, name = ''example''\<rparr>"

section \<open>Arithmetic of the addressing functions\<close>

lemma unat_kBits: "unat kBitsPerIntPtrT = 64" by (simp add: kBitsPerIntPtrT_def)
lemma unat_sizeof: "unat sizeof_intptr_t = 8" by (simp add: sizeof_intptr_t_def)

lemma unat_mult64:
  fixes a b :: "64 word"
  assumes "unat a * unat b < 2 ^ 64"
  shows "unat (a * b) = unat a * unat b"
proof -
  have "unat a * unat b < 2 ^ LENGTH(64)" using assms by simp
  then show ?thesis by (simp only: unat_mult_lem)
qed

lemma unat_add64:
  fixes a b :: "64 word"
  assumes "unat a + unat b < 2 ^ 64"
  shows "unat (a + b) = unat a + unat b"
proof -
  have "unat a + unat b < 2 ^ LENGTH(64)" using assms by simp
  then show ?thesis by (simp only: unat_add_lem)
qed

lemma unat_lt64: "unat (a :: 64 word) < 2 ^ 64"
  using unsigned_less[of a, where 'a = nat] by simp

lemma unat_OffsetToIndex:
  "unat (OffsetToIndex A off) = unat off div unat A div 64"
  by (simp add: OffsetToIndex_def unat_div unat_kBits)

lemma unat_OffsetBitIndex:
  "unat (OffsetBitIndex A off) = (unat off div unat A) mod 64"
  by (simp add: OffsetBitIndex_def unat_div unat_mod unat_kBits)

lemma unat_IndexToOffset:
  assumes h: "unat i * unat A * 64 < 2 ^ 64"
  shows "unat (IndexToOffset A i) = unat i * unat A * 64"
proof -
  have "unat i * unat A \<le> unat i * unat A * 64" by simp
  then have h1: "unat i * unat A < 2 ^ 64" using h by (rule order.strict_trans1)
  have e1: "unat (i * A) = unat i * unat A"
    using h1 by (rule unat_mult64)
  have "unat (i * A) * unat kBitsPerIntPtrT < 2 ^ 64"
    using h by (simp only: e1 unat_kBits)
  then have "unat (i * A * kBitsPerIntPtrT) = unat (i * A) * unat kBitsPerIntPtrT"
    by (rule unat_mult64)
  then show ?thesis by (simp only: IndexToOffset_def e1 unat_kBits)
qed

lemma HasAddress_nat:
  "HasAddress A b a \<longleftrightarrow>
     unat (a - heap_begin b) div unat A div 64 < unat (bitmap_size b) div 8"
  by (simp add: HasAddress_def Let_def word_less_nat_alt unat_OffsetToIndex unat_div unat_sizeof)

lemma div_div_lt_iff:
  fixes x A n :: nat
  assumes "0 < A"
  shows "x div A div 64 < n \<longleftrightarrow> x < n * A * 64"
proof -
  have "x div A div 64 = x div (A * 64)" by (simp add: div_mult2_eq)
  moreover have "x div (A * 64) < n \<longleftrightarrow> x < n * (A * 64)"
    using assms by (simp add: div_less_iff_less_mult)
  ultimately show ?thesis by (simp add: mult.assoc)
qed

lemma le_mult_pos: "0 < (k::nat) \<Longrightarrow> n \<le> n * k"
  by simp

section \<open>Validity\<close>

text \<open>
  C9: \<open>IsValid\<close> is true exactly when the backing-store pointer is non-null; a
  default-constructed bitmap has a null pointer, zero size and bounds, and is not valid.
\<close>

theorem IsValid_iff_nonnull_default_invalid:
  "IsValid b = (bitmap_begin b \<noteq> 0) \<and>
   bitmap_begin SpaceBitmap_default = 0 \<and>
   bitmap_size SpaceBitmap_default = 0 \<and>
   Size SpaceBitmap_default = 0 \<and>
   heap_begin SpaceBitmap_default = 0 \<and>
   heap_limit SpaceBitmap_default = 0 \<and>
   HeapBegin SpaceBitmap_default = 0 \<and>
   HeapLimit SpaceBitmap_default = 0 \<and>
   mem_map SpaceBitmap_default = [] \<and>
   IsValid SpaceBitmap_default = False"
  by (simp add: IsValid_def SpaceBitmap_default_def Size_def HeapBegin_def HeapLimit_def)

section \<open>Index and offset\<close>

lemma OffsetToIndex_IndexToOffset:
  assumes "A \<noteq> 0" "unat i * unat A * 64 < 2 ^ 64"
  shows "OffsetToIndex A (IndexToOffset A i) = i"
proof -
  have "0 < unat A" using assms(1) by (simp add: unat_gt_0)
  then have "unat (OffsetToIndex A (IndexToOffset A i)) = unat i"
    by (simp add: unat_OffsetToIndex unat_IndexToOffset[OF assms(2)])
  then show ?thesis by (simp only: word_unat_eq_iff)
qed

lemma IndexToOffset_OffsetToIndex_le:
  assumes "A \<noteq> 0"
  shows "IndexToOffset A (OffsetToIndex A off) \<le> off"
proof -
  have A: "0 < unat A" using assms(1) by (simp add: unat_gt_0)
  have "unat off div unat A div 64 * unat A * 64 = unat off div (unat A * 64) * (unat A * 64)"
    by (simp add: div_mult2_eq mult.assoc)
  also have "\<dots> \<le> unat off" by simp
  finally have le: "unat (OffsetToIndex A off) * unat A * 64 \<le> unat off"
    by (simp only: unat_OffsetToIndex)
  then have "unat (OffsetToIndex A off) * unat A * 64 < 2 ^ 64"
    using unat_lt64[of off] by (rule order.strict_trans1)
  then have "unat (IndexToOffset A (OffsetToIndex A off)) = unat (OffsetToIndex A off) * unat A * 64"
    by (rule unat_IndexToOffset)
  then show ?thesis using le by (simp only: word_le_nat_alt)
qed

lemma lt_IndexToOffset_Suc:
  assumes "A \<noteq> 0" "(unat (OffsetToIndex A off) + 1) * unat A * 64 < 2 ^ 64"
  shows "off < IndexToOffset A (OffsetToIndex A off + 1)"
proof -
  have A: "0 < unat A" using assms(1) by (simp add: unat_gt_0)
  let ?i = "OffsetToIndex A off"
  have "unat ?i + 1 \<le> (unat ?i + 1) * (unat A * 64)" using A by (intro le_mult_pos) simp
  then have "unat ?i + 1 \<le> (unat ?i + 1) * unat A * 64" by (simp only: mult.assoc)
  then have "unat ?i + unat (1 :: 64 word) < 2 ^ 64" using assms(2) by simp
  then have u1: "unat (?i + 1) = unat ?i + 1" using unat_add64[of ?i 1] by simp
  have "unat (IndexToOffset A (?i + 1)) = (unat ?i + 1) * unat A * 64"
    using unat_IndexToOffset[of "?i + 1" A] assms(2) by (simp only: u1)
  moreover have "unat off < (unat off div unat A div 64 + 1) * unat A * 64"
    using div_div_lt_iff[OF A, of "unat off" "unat off div unat A div 64 + 1"] by simp
  ultimately show ?thesis by (simp only: word_less_nat_alt unat_OffsetToIndex)
qed

text \<open>
  C6, as amended: absent overflow of \<open>i * kAlignment * 64\<close>, \<open>OffsetToIndex\<close> undoes
  \<open>IndexToOffset\<close>; for every offset, \<open>IndexToOffset (OffsetToIndex off) \<le> off\<close>; and
  \<open>off < IndexToOffset (OffsetToIndex off + 1)\<close> when the base offset of that next word
  does not overflow.
\<close>

theorem IndexToOffset_right_inverse:
  assumes "A \<noteq> 0"
  shows "(unat i * unat A * 64 < 2 ^ 64 \<longrightarrow> OffsetToIndex A (IndexToOffset A i) = i) \<and>
         IndexToOffset A (OffsetToIndex A off) \<le> off \<and>
         ((unat (OffsetToIndex A off) + 1) * unat A * 64 < 2 ^ 64 \<longrightarrow>
            off < IndexToOffset A (OffsetToIndex A off + 1))"
proof (intro conjI impI)
  show "OffsetToIndex A (IndexToOffset A i) = i" if "unat i * unat A * 64 < 2 ^ 64"
    using assms that by (rule OffsetToIndex_IndexToOffset)
  show "IndexToOffset A (OffsetToIndex A off) \<le> off"
    using assms by (rule IndexToOffset_OffsetToIndex_le)
  show "off < IndexToOffset A (OffsetToIndex A off + 1)"
    if "(unat (OffsetToIndex A off) + 1) * unat A * 64 < 2 ^ 64"
    using assms that by (rule lt_IndexToOffset_Suc)
qed

theorem IndexToOffset_right_inverse_witness:
  "(8 :: 64 word) \<noteq> 0 \<and>
   OffsetToIndex 8 (IndexToOffset 8 3) = 3 \<and>
   IndexToOffset 8 (OffsetToIndex 8 1000) \<le> 1000 \<and>
   (1000 :: 64 word) < IndexToOffset 8 (OffsetToIndex 8 1000 + 1)"
proof -
  have nz: "(8 :: 64 word) \<noteq> 0" by simp
  have i: "OffsetToIndex 8 1000 = 1"
    by (simp add: OffsetToIndex_def kBitsPerIntPtrT_def)
  show ?thesis
    using nz IndexToOffset_right_inverse[OF nz, of 3 1000]
    by (simp add: i)
qed

text \<open>
  The claim as stated fails at the offset \<open>2^64 - 1\<close> with alignment 8: the next word's
  base offset is \<open>2^55 * 8 * 64 = 2^64\<close>, which wraps to 0.
\<close>

theorem IndexToOffset_next_word_counterexample:
  "OffsetToIndex 8 0xFFFFFFFFFFFFFFFF = 0x7FFFFFFFFFFFFF \<and>
   IndexToOffset 8 (OffsetToIndex 8 0xFFFFFFFFFFFFFFFF + 1) = 0 \<and>
   \<not> ((0xFFFFFFFFFFFFFFFF :: 64 word) <
        IndexToOffset 8 (OffsetToIndex 8 0xFFFFFFFFFFFFFFFF + 1))"
  by (simp add: IndexToOffset_def OffsetToIndex_def kBitsPerIntPtrT_def)

section \<open>The covered range\<close>

lemma SpaceBitmap_invD:
  assumes "SpaceBitmap_inv A b"
  shows "A \<noteq> 0" and "IsValid b" and "heap_begin b \<le> heap_limit b"
    and "unat (bitmap_size b) =
           ComputeBitmapSize (unat A) (unat (heap_limit b - heap_begin b))"
    and "unat (bitmap_size b) div 8 \<le> length (mem_map b)"
    and "unat (heap_begin b) + unat (bitmap_size b) div 8 * unat A * 64 \<le> 2 ^ 64"
  using assms unfolding SpaceBitmap_inv_def by blast+

lemma le_ceil_mult:
  fixes c K :: nat
  assumes "0 < K"
  shows "c \<le> (c + K - 1) div K * K"
proof -
  have "c + K - 1 < ((c + K - 1) div K + 1) * K"
    using assms div_less_iff_less_mult[of K "c + K - 1" "(c + K - 1) div K + 1"] by simp
  then show ?thesis using assms by simp
qed

lemma lt_ceil_mult:
  fixes c K :: nat
  assumes "0 < K" "\<not> K dvd c"
  shows "c < (c + K - 1) div K * K"
proof -
  have "c \<le> (c + K - 1) div K * K" using assms(1) by (rule le_ceil_mult)
  moreover have "c \<noteq> (c + K - 1) div K * K" using assms(2) by (metis dvd_triv_right)
  ultimately show ?thesis by simp
qed

lemma HasAddress_iff:
  assumes A: "A \<noteq> 0"
    and nowrap: "unat (heap_begin b) + unat (bitmap_size b) div 8 * unat A * 64 \<le> 2 ^ 64"
  shows "HasAddress A b a \<longleftrightarrow>
           heap_begin b \<le> a \<and>
           unat a < unat (heap_begin b) + unat (bitmap_size b) div 8 * unat A * 64"
proof -
  have A': "0 < unat A" using A by (simp add: unat_gt_0)
  let ?n = "unat (bitmap_size b) div 8"
  have H: "HasAddress A b a \<longleftrightarrow> unat (a - heap_begin b) < ?n * unat A * 64"
    by (simp only: HasAddress_nat div_div_lt_iff[OF A'])
  show ?thesis
  proof (cases "heap_begin b \<le> a")
    case True
    then have "unat (a - heap_begin b) = unat a - unat (heap_begin b)"
      by (simp add: unat_sub)
    moreover have "unat (heap_begin b) \<le> unat a" using True by (simp add: word_le_nat_alt)
    ultimately show ?thesis using True H by auto
  next
    case False
    then have lt: "unat a < unat (heap_begin b)" by (simp add: word_le_nat_alt)
    then have "unat (a - heap_begin b) = unat a + 2 ^ 64 - unat (heap_begin b)"
      by (simp add: unat_sub_if_size word_size)
    then have "\<not> unat (a - heap_begin b) < ?n * unat A * 64"
      using nowrap lt by linarith
    then show ?thesis using False H by simp
  qed
qed

lemma capacity_le_covered:
  assumes "SpaceBitmap_inv A b"
  shows "unat (heap_limit b - heap_begin b) \<le> unat (bitmap_size b) div 8 * unat A * 64"
proof -
  have A': "0 < unat A * 64" using assms by (simp add: SpaceBitmap_inv_def unat_gt_0)
  have "unat (bitmap_size b) div 8 = (unat (heap_limit b - heap_begin b) + unat A * 64 - 1) div (unat A * 64)"
    using assms by (simp add: SpaceBitmap_inv_def ComputeBitmapSize_def)
  then show ?thesis using le_ceil_mult[OF A', of "unat (heap_limit b - heap_begin b)"]
    by (simp add: mult.assoc)
qed

lemma capacity_lt_covered:
  assumes "SpaceBitmap_inv A b" "\<not> unat A * 64 dvd unat (heap_limit b - heap_begin b)"
  shows "unat (heap_limit b - heap_begin b) < unat (bitmap_size b) div 8 * unat A * 64"
proof -
  have A': "0 < unat A * 64" using assms by (simp add: SpaceBitmap_inv_def unat_gt_0)
  have "unat (bitmap_size b) div 8 = (unat (heap_limit b - heap_begin b) + unat A * 64 - 1) div (unat A * 64)"
    using assms by (simp add: SpaceBitmap_inv_def ComputeBitmapSize_def)
  then show ?thesis using lt_ceil_mult[OF A' assms(2)]
    by (simp add: mult.assoc)
qed

lemma inv_capacity_nat:
  assumes "SpaceBitmap_inv A b"
  shows "unat (heap_limit b - heap_begin b) = unat (heap_limit b) - unat (heap_begin b)"
    and "unat (heap_begin b) \<le> unat (heap_limit b)"
  using assms by (simp_all add: SpaceBitmap_inv_def unat_sub word_le_nat_alt)

text \<open>
  C1, as amended: on a bitmap in use, \<open>HasAddress a\<close> is true exactly when
  \<open>heap_begin \<le> a < heap_begin + (Size / 8) * kAlignment * 64\<close>, the limit rounded up to
  a whole bitmap word. So it is true for every address in \<open>[heap_begin, heap_limit)\<close> and
  false for every address below \<open>heap_begin\<close>, where the offset underflows.
\<close>

theorem HasAddress_covers_rounded_range:
  assumes "SpaceBitmap_inv A b"
  shows "(heap_begin b \<le> a \<and> a < heap_limit b \<longrightarrow> HasAddress A b a) \<and>
         (a < heap_begin b \<longrightarrow> \<not> HasAddress A b a) \<and>
         (HasAddress A b a \<longleftrightarrow>
            heap_begin b \<le> a \<and>
            unat a < unat (heap_begin b) + unat (Size b) div 8 * unat A * 64)"
proof -
  have A: "A \<noteq> 0"
    and nowrap: "unat (heap_begin b) + unat (bitmap_size b) div 8 * unat A * 64 \<le> 2 ^ 64"
    using SpaceBitmap_invD[OF assms] by blast+
  note iff = HasAddress_iff[OF A nowrap]
  have 1: "heap_begin b \<le> a \<and> a < heap_limit b \<longrightarrow> HasAddress A b a"
  proof
    assume h: "heap_begin b \<le> a \<and> a < heap_limit b"
    then have "unat a < unat (heap_limit b)" by (simp add: word_less_nat_alt)
    then have "unat a < unat (heap_begin b) + unat (bitmap_size b) div 8 * unat A * 64"
      using capacity_le_covered[OF assms] inv_capacity_nat[OF assms] by linarith
    then show "HasAddress A b a" using h iff by simp
  qed
  have 2: "a < heap_begin b \<longrightarrow> \<not> HasAddress A b a"
    using iff by auto
  show ?thesis using 1 2 iff by (simp only: Size_def)
qed

text \<open>
  The claim as stated fails on a bitmap over the 8 bytes \<open>[0x1000, 0x1008)\<close> with alignment
  8: its one word covers 512 bytes, and \<open>HasAddress\<close> accepts \<open>heap_limit\<close> itself.
\<close>

theorem HasAddress_at_limit_counterexample:
  "SpaceBitmap_inv 8 \<lparr>mem_map = [0], bitmap_begin = 0x7000, bitmap_size = 8,
       heap_begin = 0x1000, heap_limit = 0x1008, name = []\<rparr> \<and>
   HasAddress 8 \<lparr>mem_map = [0], bitmap_begin = 0x7000, bitmap_size = 8,
       heap_begin = 0x1000, heap_limit = 0x1008, name = []\<rparr> 0x1008 \<and>
   \<not> ((0x1008 :: 64 word) < heap_limit \<lparr>mem_map = [0], bitmap_begin = 0x7000, bitmap_size = 8,
       heap_begin = 0x1000, heap_limit = 0x1008, name = []\<rparr>)"
  by (simp add: SpaceBitmap_inv_def IsValid_def ComputeBitmapSize_def HasAddress_def
      OffsetToIndex_def kBitsPerIntPtrT_def sizeof_intptr_t_def)

theorem HasAddress_covers_rounded_range_witness:
  "SpaceBitmap_inv 8 \<lparr>mem_map = [0], bitmap_begin = 0x7000, bitmap_size = 8,
       heap_begin = 0x1000, heap_limit = 0x1008, name = []\<rparr> \<and>
   HasAddress 8 \<lparr>mem_map = [0], bitmap_begin = 0x7000, bitmap_size = 8,
       heap_begin = 0x1000, heap_limit = 0x1008, name = []\<rparr> 0x1000 \<and>
   \<not> HasAddress 8 \<lparr>mem_map = [0], bitmap_begin = 0x7000, bitmap_size = 8,
       heap_begin = 0x1000, heap_limit = 0x1008, name = []\<rparr> 0xFF8"
proof -
  let ?b = "\<lparr>mem_map = [0], bitmap_begin = 0x7000, bitmap_size = 8,
       heap_begin = 0x1000, heap_limit = 0x1008, name = []\<rparr> :: SpaceBitmap"
  have inv: "SpaceBitmap_inv 8 ?b"
    by (simp add: SpaceBitmap_inv_def IsValid_def ComputeBitmapSize_def)
  show ?thesis
    using inv HasAddress_covers_rounded_range[OF inv, of "0x1000"]
      HasAddress_covers_rounded_range[OF inv, of "0xFF8"]
    by simp
qed

text \<open>
  C10: \<open>HasAddress\<close> does not read \<open>heap_limit\<close>. On a bitmap whose capacity is not a
  multiple of \<open>kAlignment * 64\<close> it is true for every address from \<open>heap_limit\<close> up to
  \<open>heap_begin + (Size / 8) * kAlignment * 64\<close>, and \<open>heap_limit\<close> is such an address.
\<close>

theorem HasAddress_rounding_slack:
  assumes "SpaceBitmap_inv A b"
    and "\<not> unat A * 64 dvd unat (heap_limit b - heap_begin b)"
  shows "(\<forall>l a. HasAddress A (b\<lparr>heap_limit := l\<rparr>) a = HasAddress A b a) \<and>
         (\<forall>a. heap_limit b \<le> a \<and>
               unat a < unat (heap_begin b) + unat (Size b) div 8 * unat A * 64 \<longrightarrow>
               HasAddress A b a) \<and>
         HasAddress A b (heap_limit b)"
proof -
  have A: "A \<noteq> 0"
    and nowrap: "unat (heap_begin b) + unat (bitmap_size b) div 8 * unat A * 64 \<le> 2 ^ 64"
    and le: "heap_begin b \<le> heap_limit b"
    using SpaceBitmap_invD[OF assms(1)] by blast+
  note iff = HasAddress_iff[OF A nowrap]
  have 1: "\<forall>l a. HasAddress A (b\<lparr>heap_limit := l\<rparr>) a = HasAddress A b a"
    by (simp add: HasAddress_def)
  have 2: "\<forall>a. heap_limit b \<le> a \<and>
               unat a < unat (heap_begin b) + unat (Size b) div 8 * unat A * 64 \<longrightarrow>
               HasAddress A b a"
  proof (intro allI impI)
    fix a
    assume h: "heap_limit b \<le> a \<and>
               unat a < unat (heap_begin b) + unat (Size b) div 8 * unat A * 64"
    then have "heap_limit b \<le> a" by (rule conjunct1)
    with le have "heap_begin b \<le> a" by (rule order_trans)
    then show "HasAddress A b a" using h by (simp only: iff Size_def)
  qed
  have "unat (heap_limit b) < unat (heap_begin b) + unat (bitmap_size b) div 8 * unat A * 64"
    using capacity_lt_covered[OF assms] inv_capacity_nat[OF assms(1)] by linarith
  then have 3: "HasAddress A b (heap_limit b)" using iff le by simp
  show ?thesis using 1 2 3 by (intro conjI)
qed

theorem HasAddress_rounding_slack_witness:
  "SpaceBitmap_inv 8 \<lparr>mem_map = [0], bitmap_begin = 0x7000, bitmap_size = 8,
       heap_begin = 0x1000, heap_limit = 0x1008, name = []\<rparr> \<and>
   \<not> (unat (8 :: 64 word) * 64 dvd unat ((0x1008 :: 64 word) - 0x1000)) \<and>
   HasAddress 8 \<lparr>mem_map = [0], bitmap_begin = 0x7000, bitmap_size = 8,
       heap_begin = 0x1000, heap_limit = 0x1008, name = []\<rparr> 0x1008 \<and>
   HasAddress 8 \<lparr>mem_map = [0], bitmap_begin = 0x7000, bitmap_size = 8,
       heap_begin = 0x1000, heap_limit = 0x1008, name = []\<rparr> 0x11FF"
proof -
  let ?b = "\<lparr>mem_map = [0], bitmap_begin = 0x7000, bitmap_size = 8,
       heap_begin = 0x1000, heap_limit = 0x1008, name = []\<rparr> :: SpaceBitmap"
  have inv: "SpaceBitmap_inv 8 ?b"
    by (simp add: SpaceBitmap_inv_def IsValid_def ComputeBitmapSize_def)
  have nd: "\<not> unat (8 :: 64 word) * 64 dvd unat (heap_limit ?b - heap_begin ?b)"
    by simp
  have "(0x1008 :: 64 word) \<le> 0x11FF \<and>
        unat (0x11FF :: 64 word) < unat (heap_begin ?b) + unat (Size ?b) div 8 * unat (8 :: 64 word) * 64"
    by (simp add: Size_def)
  then show ?thesis
    using inv nd HasAddress_rounding_slack[OF inv nd]
    by simp
qed

section \<open>Resizing\<close>

lemma div_div_mult_le: "(x::nat) div A div 64 * A * 64 \<le> x"
proof -
  have e: "x div A div 64 = x div (A * 64)"
    by (simp add: div_mult2_eq)
  have "x div (A * 64) * (A * 64) \<le> x" by simp
  then show ?thesis by (simp only: e mult.assoc)
qed

lemma div_div_mult_eq_iff: "(x::nat) div A div 64 * A * 64 = x \<longleftrightarrow> A * 64 dvd x"
proof -
  have e: "x div A div 64 = x div (A * 64)"
    by (simp add: div_mult2_eq)
  have "x div (A * 64) * (A * 64) = x \<longleftrightarrow> A * 64 dvd x"
    by (metis dvd_div_mult_self dvd_triv_right)
  then show ?thesis by (simp only: e mult.assoc)
qed

text \<open>
  C7: \<open>SetHeapSize bytes\<close> aborts exactly when \<open>bytes\<close> is not a multiple of
  \<open>kAlignment * 64\<close>; when it returns, \<open>HeapSize\<close> is \<open>bytes\<close> and \<open>HeapLimit\<close> is
  \<open>HeapBegin + bytes\<close>.
\<close>

theorem SetHeapSize_aborts_iff:
  assumes "A \<noteq> 0"
  shows "(SetHeapSize A b bytes = Inl CheckFailed \<longleftrightarrow> \<not> unat A * 64 dvd unat bytes) \<and>
         (\<forall>b'. SetHeapSize A b bytes = Inr b' \<longrightarrow>
            HeapSize A b' = bytes \<and> HeapLimit b' = HeapBegin b' + bytes \<and>
            HeapBegin b' = HeapBegin b)"
proof -
  have A: "0 < unat A" using assms by (simp add: unat_gt_0)
  let ?i = "OffsetToIndex A bytes"
  let ?b' = "b\<lparr>heap_limit := heap_begin b + bytes, bitmap_size := ?i * sizeof_intptr_t\<rparr>"
  have il: "unat ?i * unat A * 64 \<le> unat bytes"
    by (simp only: unat_OffsetToIndex div_div_mult_le)
  have "unat ?i \<le> unat ?i * unat A" using A by simp
  then have "unat ?i * 8 \<le> unat ?i * unat A * 64" by simp
  then have "unat ?i * 8 < 2 ^ 64" using il unat_lt64[of bytes] by linarith
  then have "unat (?i * sizeof_intptr_t) = unat ?i * 8"
    using unat_mult64[of ?i sizeof_intptr_t] by (simp add: unat_sizeof)
  then have "unat (?i * sizeof_intptr_t div sizeof_intptr_t) = unat ?i"
    by (simp add: unat_div unat_sizeof)
  then have idx: "?i * sizeof_intptr_t div sizeof_intptr_t = ?i"
    by (simp only: word_unat_eq_iff)
  have "unat ?i * unat A * 64 < 2 ^ 64" using il unat_lt64[of bytes] by linarith
  then have hs: "unat (HeapSize A ?b') = unat ?i * unat A * 64"
    by (simp add: HeapSize_def Size_def idx unat_IndexToOffset)
  have "unat ?i * unat A * 64 = unat bytes \<longleftrightarrow> unat A * 64 dvd unat bytes"
    by (simp only: unat_OffsetToIndex div_div_mult_eq_iff)
  then have eq: "HeapSize A ?b' = bytes \<longleftrightarrow> unat A * 64 dvd unat bytes"
    using hs by (simp add: word_unat_eq_iff)
  show ?thesis
    using eq by (auto simp: SetHeapSize_def Let_def HeapLimit_def HeapBegin_def)
qed

theorem SetHeapSize_aborts_iff_witness:
  "(8 :: 64 word) \<noteq> 0 \<and>
   SetHeapSize 8 SpaceBitmap_default 1024 =
     Inr (SpaceBitmap_default\<lparr>heap_limit := 1024, bitmap_size := 16\<rparr>) \<and>
   HeapSize 8 (SpaceBitmap_default\<lparr>heap_limit := 1024, bitmap_size := 16\<rparr>) = 1024 \<and>
   SetHeapSize 8 SpaceBitmap_default 1000 = Inl CheckFailed"
proof -
  have nz: "(8 :: 64 word) \<noteq> 0" by simp
  have e: "SetHeapSize 8 SpaceBitmap_default 1024 =
     Inr (SpaceBitmap_default\<lparr>heap_limit := 1024, bitmap_size := 16\<rparr>)"
    by (simp add: SetHeapSize_def HeapSize_def Size_def IndexToOffset_def OffsetToIndex_def
        kBitsPerIntPtrT_def sizeof_intptr_t_def SpaceBitmap_default_def)
  show ?thesis
    using nz e SetHeapSize_aborts_iff[OF nz, of SpaceBitmap_default 1024]
      SetHeapSize_aborts_iff[OF nz, of SpaceBitmap_default 1000]
    by simp
qed

section \<open>Properties of the linear slot enumeration\<close>

lemma lt_ceil_iff:
  fixes k d A :: nat
  assumes "0 < A"
  shows "k < (d + A - 1) div A \<longleftrightarrow> k * A < d"
proof
  assume "k < (d + A - 1) div A"
  then have "Suc k \<le> (d + A - 1) div A" by simp
  then have "Suc k * A \<le> d + A - 1"
    using assms by (simp only: less_eq_div_iff_mult_less_eq)
  then show "k * A < d" using assms by simp
next
  assume "k * A < d"
  then have "Suc k * A \<le> d + A - 1" using assms by simp
  then have "Suc k \<le> (d + A - 1) div A"
    using assms by (simp only: less_eq_div_iff_mult_less_eq)
  then show "k < (d + A - 1) div A" by simp
qed

lemma ceil_le_iff:
  fixes m d A :: nat
  assumes "0 < A"
  shows "(d + A - 1) div A \<le> m \<longleftrightarrow> d \<le> m * A"
  using lt_ceil_iff[OF assms, of m d] by linarith

lemma VisitRange_count_iff:
  assumes "A \<noteq> 0"
  shows "k < VisitRange_count A vb ve \<longleftrightarrow> unat vb + k * unat A < unat ve"
proof -
  have A: "0 < unat A" using assms by (simp add: unat_gt_0)
  have "k < VisitRange_count A vb ve \<longleftrightarrow> k * unat A < unat ve - unat vb"
    unfolding VisitRange_count_def using A by (rule lt_ceil_iff)
  then show ?thesis by linarith
qed

lemma unat_slot_addr:
  fixes vb A :: "64 word"
  assumes "unat vb + k * unat A < 2 ^ 64"
  shows "unat (vb + of_nat k * A) = unat vb + k * unat A"
proof (cases "A = 0")
  case True
  then show ?thesis by simp
next
  case False
  then have A: "0 < unat A" by (simp add: unat_gt_0)
  have "k \<le> k * unat A" using A by simp
  then have k: "k < 2 ^ 64" using assms by linarith
  then have uk: "unat (of_nat k :: 64 word) = k" by (simp add: unat_of_nat)
  have "unat (of_nat k :: 64 word) * unat A < 2 ^ 64" using assms by (simp add: uk)
  then have m: "unat (of_nat k * A) = k * unat A" using unat_mult64[of "of_nat k" A] by (simp add: uk)
  show ?thesis using unat_add64[of vb "of_nat k * A"] assms by (simp add: m)
qed

lemma VisitRange_iterate:
  assumes "unat vb + m * unat A < 2 ^ 64"
    and "\<forall>k<m. unat vb + k * unat A < unat ve"
  shows "VisitRange (m + fuel) A vb ve visitor s =
         VisitRange fuel A (vb + of_nat m * A) ve visitor
           (foldl visitor s (map (\<lambda>k. vb + of_nat k * A) [0..<m]))"
  using assms
proof (induction m arbitrary: vb s)
  case 0
  then show ?case by simp
next
  case (Suc m)
  have lt: "vb < ve" using Suc.prems(2) by (auto simp: word_less_nat_alt)
  have "unat vb + unat A \<le> unat vb + Suc m * unat A" by simp
  then have "unat vb + unat A < 2 ^ 64" using Suc.prems(1) by linarith
  then have u: "unat (vb + A) = unat vb + unat A" by (rule unat_add64)
  have p1: "unat (vb + A) + m * unat A < 2 ^ 64" using Suc.prems(1) by (simp add: u)
  have p2: "\<forall>k<m. unat (vb + A) + k * unat A < unat ve"
  proof (intro allI impI)
    fix k assume "k < m"
    then have "unat vb + Suc k * unat A < unat ve" using Suc.prems(2) by blast
    then show "unat (vb + A) + k * unat A < unat ve" by (simp add: u)
  qed
  have m: "map (\<lambda>k. vb + of_nat k * A) [0..<Suc m] =
           vb # map (\<lambda>k. (vb + A) + of_nat k * A) [0..<m]"
  proof -
    have "[0..<Suc m] = 0 # map Suc [0..<m]"
      by (simp add: upt_conv_Cons map_Suc_upt del: upt_Suc)
    then have "map (\<lambda>k. vb + of_nat k * A) [0..<Suc m] =
               (vb + of_nat 0 * A) # map ((\<lambda>k. vb + of_nat k * A) \<circ> Suc) [0..<m]"
      by (simp only: list.map map_map)
    also have "\<dots> = vb # map (\<lambda>k. (vb + A) + of_nat k * A) [0..<m]"
      by (simp add: algebra_simps)
    finally show ?thesis .
  qed
  have "VisitRange (Suc m + fuel) A vb ve visitor s =
        VisitRange (m + fuel) A (vb + A) ve visitor (visitor s vb)"
    using lt by simp
  also have "\<dots> = VisitRange fuel A ((vb + A) + of_nat m * A) ve visitor
           (foldl visitor (visitor s vb) (map (\<lambda>k. (vb + A) + of_nat k * A) [0..<m]))"
    using Suc.IH[OF p1 p2] .
  also have "\<dots> = VisitRange fuel A (vb + of_nat (Suc m) * A) ve visitor
           (foldl visitor s (map (\<lambda>k. vb + of_nat k * A) [0..<Suc m]))"
    by (simp only: m foldl_Cons) (simp add: algebra_simps)
  finally show ?case .
qed

text \<open>
  C8, as amended: when the last visited address plus \<open>kAlignment\<close> does not wrap,
  \<open>VisitRange\<close> returns, whatever the bits are, after calling the visitor on
  \<open>visit_begin\<close>, \<open>visit_begin + kAlignment\<close>, ... in this ascending order, exactly on
  those of these addresses that are below \<open>visit_end\<close>.
\<close>

theorem VisitRange_visits_every_slot:
  assumes "A \<noteq> 0"
    and "unat vb + VisitRange_count A vb ve * unat A < 2 ^ 64"
    and "VisitRange_count A vb ve < fuel"
  shows "VisitRange fuel A vb ve visitor s =
           Some (foldl visitor s (map (\<lambda>k. vb + of_nat k * A) [0..<VisitRange_count A vb ve])) \<and>
         (\<forall>k. k < VisitRange_count A vb ve \<longleftrightarrow> unat vb + k * unat A < unat ve) \<and>
         (\<forall>k < VisitRange_count A vb ve. unat (vb + of_nat k * A) = unat vb + k * unat A) \<and>
         sorted_wrt (<) (map (\<lambda>k. vb + of_nat k * A) [0..<VisitRange_count A vb ve])"
proof -
  let ?n = "VisitRange_count A vb ve"
  have A: "0 < unat A" using assms(1) by (simp add: unat_gt_0)
  note cnt = VisitRange_count_iff[OF assms(1), of _ vb ve]
  obtain f where f: "fuel = ?n + Suc f" using assms(3) less_iff_Suc_add by auto
  have all: "\<forall>k<?n. unat vb + k * unat A < unat ve" using cnt by simp
  have un: "unat (vb + of_nat ?n * A) = unat vb + ?n * unat A"
    using assms(2) by (rule unat_slot_addr)
  have "\<not> unat vb + ?n * unat A < unat ve" using cnt[of ?n] by simp
  then have stop: "\<not> vb + of_nat ?n * A < ve" by (simp add: word_less_nat_alt un)
  have 1: "VisitRange fuel A vb ve visitor s =
           Some (foldl visitor s (map (\<lambda>k. vb + of_nat k * A) [0..<?n]))"
    using VisitRange_iterate[OF assms(2) all, of "Suc f" visitor s] stop by (simp add: f)
  have 3: "\<forall>k < ?n. unat (vb + of_nat k * A) = unat vb + k * unat A"
  proof (intro allI impI)
    fix k assume "k < ?n"
    then have "k * unat A \<le> ?n * unat A" by simp
    then have "unat vb + k * unat A < 2 ^ 64" using assms(2) by linarith
    then show "unat (vb + of_nat k * A) = unat vb + k * unat A" by (rule unat_slot_addr)
  qed
  have 4: "sorted_wrt (<) (map (\<lambda>k. vb + of_nat k * A) [0..<?n])"
  proof -
    have "\<And>i j. i < j \<Longrightarrow> j < ?n \<Longrightarrow> vb + of_nat i * A < vb + of_nat j * A"
    proof -
      fix i j assume ij: "i < j" "j < ?n"
      then have "i * unat A < j * unat A" using A by simp
      then show "vb + of_nat i * A < vb + of_nat j * A"
        using 3 ij by (simp add: word_less_nat_alt)
    qed
    then show ?thesis by (simp add: sorted_wrt_map sorted_wrt_iff_nth_less)
  qed
  show ?thesis using 1 cnt 3 4 by (intro conjI) simp_all
qed

lemma VisitRange_wraps_forever:
  "8 dvd unat vb \<Longrightarrow> VisitRange fuel 8 vb 0xFFFFFFFFFFFFFFFF visitor s = None"
proof (induction fuel arbitrary: vb s)
  case 0
  then show ?case by simp
next
  case (Suc fuel)
  have "unat vb \<noteq> 18446744073709551615"
  proof
    assume "unat vb = 18446744073709551615"
    then have "(8::nat) dvd 18446744073709551615" using Suc.prems by simp
    then show False by simp
  qed
  then have "unat vb < 18446744073709551615" using unat_lt64[of vb] by simp
  then have lt: "vb < 0xFFFFFFFFFFFFFFFF" by (simp add: word_less_nat_alt)
  have "unat (vb + 8) = (unat vb + 8) mod 2 ^ 64"
    by (simp add: unat_word_ariths)
  moreover have "(8::nat) dvd 2 ^ 64" by simp
  ultimately have "8 dvd unat (vb + 8)" using Suc.prems by (simp add: dvd_mod_iff del: power_numeral)
  then show ?case using lt Suc.IH by simp
qed

text \<open>
  The claim as stated fails for the range \<open>[2^64 - 8, 2^64 - 1)\<close> with alignment 8: after
  the first visit the address wraps to 0, which is below \<open>visit_end\<close> again, and the loop
  never ends.
\<close>

theorem VisitRange_wraparound_counterexample:
  "(0xFFFFFFFFFFFFFFF8 :: 64 word) < 0xFFFFFFFFFFFFFFFF \<and>
   (0xFFFFFFFFFFFFFFF8 :: 64 word) + 8 = 0 \<and>
   (0 :: 64 word) < 0xFFFFFFFFFFFFFFFF \<and>
   (\<forall>fuel. VisitRange fuel 8 0xFFFFFFFFFFFFFFF8 0xFFFFFFFFFFFFFFFF (\<lambda>s a. s @ [a]) [] = None)"
proof -
  have "(8::nat) dvd unat (0xFFFFFFFFFFFFFFF8 :: 64 word)" by simp
  then show ?thesis by (simp add: VisitRange_wraps_forever)
qed

theorem VisitRange_visits_every_slot_witness:
  "(8 :: 64 word) \<noteq> 0 \<and>
   VisitRange 4 8 0x1000 0x1014 (\<lambda>s a. s @ [a]) [] = Some [0x1000, 0x1008, 0x1010]"
proof -
  have nz: "(8 :: 64 word) \<noteq> 0" by simp
  have c: "VisitRange_count 8 0x1000 0x1014 = 3" by (simp add: VisitRange_count_def)
  have a: "unat (0x1000 :: 64 word) + VisitRange_count 8 0x1000 0x1014 * unat (8 :: 64 word) < 2 ^ 64"
    by (simp add: c)
  have b: "VisitRange_count 8 0x1000 0x1014 < 4" by (simp add: c)
  have l: "[0..<3] = [0, 1, 2]" by (simp add: upt_rec)
  show ?thesis
    using nz VisitRange_visits_every_slot[OF nz a b, of "\<lambda>s a. s @ [a]" "[]"]
    by (simp add: c l)
qed

section \<open>Setting, clearing and testing a bit\<close>

lemma OffsetBitIndex_lt: "unat (OffsetBitIndex A off) < 64"
  by (simp add: unat_OffsetBitIndex)

lemma bit_one_shl: "n < 64 \<Longrightarrow> bit (push_bit n 1 :: 64 word) j \<longleftrightarrow> j = n"
  by (auto simp: bit_simps)

lemma bit_OffsetToMask: "bit (OffsetToMask A off) j \<longleftrightarrow> j = unat (OffsetBitIndex A off)"
  unfolding OffsetToMask_def using OffsetBitIndex_lt by (rule bit_one_shl)

lemma and_mask_neq0_iff:
  "w AND OffsetToMask A off \<noteq> 0 \<longleftrightarrow> bit w (unat (OffsetBitIndex A off))"
proof
  assume nz: "w AND OffsetToMask A off \<noteq> 0"
  show "bit w (unat (OffsetBitIndex A off))"
  proof (rule ccontr)
    assume "\<not> bit w (unat (OffsetBitIndex A off))"
    then have "w AND OffsetToMask A off = 0"
      by (intro bit_eqI) (auto simp: bit_and_iff bit_OffsetToMask)
    then show False using nz by simp
  qed
next
  assume "bit w (unat (OffsetBitIndex A off))"
  then have "bit (w AND OffsetToMask A off) (unat (OffsetBitIndex A off))"
    by (simp add: bit_and_iff bit_OffsetToMask)
  then show "w AND OffsetToMask A off \<noteq> 0" by auto
qed

lemma bit_or_mask:
  "bit (w OR OffsetToMask A off) j \<longleftrightarrow> j = unat (OffsetBitIndex A off) \<or> bit w j"
  by (auto simp: bit_or_iff bit_OffsetToMask)

lemma bit_and_not_mask:
  "bit (w AND NOT (OffsetToMask A off)) j \<longleftrightarrow> j \<noteq> unat (OffsetBitIndex A off) \<and> bit w j"
  by (auto simp: bit_and_iff bit_not_iff bit_OffsetToMask dest: bit_imp_le_length)

lemma Test_bit:
  assumes "IsValid b" "HasAddress A b a" "unat (bitmap_size b) div 8 \<le> length (mem_map b)"
  shows "Test A b a =
           Inr (bit (mem_map b ! unat (OffsetToIndex A (a - heap_begin b)))
                    (unat (OffsetBitIndex A (a - heap_begin b))))"
proof -
  have "unat (OffsetToIndex A (a - heap_begin b)) < unat (bitmap_size b) div 8"
    using assms(2) by (simp add: HasAddress_def Let_def word_less_nat_alt unat_div unat_sizeof)
  then have "unat (OffsetToIndex A (a - heap_begin b)) < length (mem_map b)"
    using assms(3) by simp
  then show ?thesis using assms(1,2) by (simp add: Test_def Let_def and_mask_neq0_iff)
qed

lemma HasAddress_index_lt:
  assumes "HasAddress A b a" "unat (bitmap_size b) div 8 \<le> length (mem_map b)"
  shows "unat (OffsetToIndex A (a - heap_begin b)) < length (mem_map b)"
proof -
  have "unat (OffsetToIndex A (a - heap_begin b)) < unat (bitmap_size b) div 8"
    using assms(1) by (simp add: HasAddress_def Let_def word_less_nat_alt unat_div unat_sizeof)
  then show ?thesis using assms(2) by simp
qed

lemma HasAddress_mem_map_update [simp]:
  "HasAddress A (b\<lparr>mem_map := m\<rparr>) a = HasAddress A b a"
  by (simp add: HasAddress_def)

lemma IsValid_mem_map_update [simp]:
  "IsValid (b\<lparr>mem_map := m\<rparr>) = IsValid b"
  by (simp add: IsValid_def)

lemma inv_mem_map_update:
  "length m = length (mem_map b) \<Longrightarrow>
   SpaceBitmap_inv A (b\<lparr>mem_map := m\<rparr>) = SpaceBitmap_inv A b"
  unfolding SpaceBitmap_inv_def by simp

lemma in_range_HasAddress:
  assumes "SpaceBitmap_inv A b" "heap_begin b \<le> a" "a < heap_limit b"
  shows "HasAddress A b a"
proof -
  have A: "A \<noteq> 0"
    and nowrap: "unat (heap_begin b) + unat (bitmap_size b) div 8 * unat A * 64 \<le> 2 ^ 64"
    using SpaceBitmap_invD[OF assms(1)] by blast+
  have "unat a < unat (heap_limit b)" using assms(3) by (simp add: word_less_nat_alt)
  then have "unat a < unat (heap_begin b) + unat (bitmap_size b) div 8 * unat A * 64"
    using capacity_le_covered[OF assms(1)] inv_capacity_nat[OF assms(1)] by linarith
  then show ?thesis using assms(2) by (simp only: HasAddress_iff[OF A nowrap])
qed

lemma Modify_ok:
  assumes "SpaceBitmap_inv A b" "heap_begin b \<le> a" "a < heap_limit b"
  defines "index \<equiv> unat (OffsetToIndex A (a - heap_begin b))"
    and "n \<equiv> unat (OffsetBitIndex A (a - heap_begin b))"
  shows "\<exists>b'. Modify v A b a = Inr (bit (mem_map b ! index) n, b') \<and>
              SpaceBitmap_inv A b' \<and>
              Test A b' a = Inr v \<and> Test A b a = Inr (bit (mem_map b ! index) n) \<and>
              same_bits_except b b' index n"
proof -
  have valid: "IsValid b" and store: "unat (bitmap_size b) div 8 \<le> length (mem_map b)"
    using SpaceBitmap_invD[OF assms(1)] by blast+
  have has: "HasAddress A b a" using assms(1-3) by (rule in_range_HasAddress)
  have idx: "index < length (mem_map b)"
    unfolding index_def using has store by (rule HasAddress_index_lt)
  define old where "old = mem_map b ! index"
  define new where "new = (if v then old OR OffsetToMask A (a - heap_begin b)
                           else old AND NOT (OffsetToMask A (a - heap_begin b)))"
  define b' where "b' = b\<lparr>mem_map := (mem_map b)[index := new]\<rparr>"
  have m: "Modify v A b a = Inr (bit (mem_map b ! index) n, b')"
    using valid has idx
    by (simp add: Modify_def Let_def index_def[symmetric] and_mask_neq0_iff n_def
        b'_def new_def old_def)
  have inv': "SpaceBitmap_inv A b'" using assms(1) by (simp add: inv_mem_map_update b'_def)
  have bitnew: "bit new j \<longleftrightarrow> (if j = n then v else bit old j)" for j
    by (simp add: bit_or_mask bit_and_not_mask n_def new_def)
  have nth: "mem_map b' ! i = (if i = index then new else mem_map b ! i)"
    if "i < length (mem_map b)" for i
    using that by (simp add: b'_def nth_list_update)
  have t': "Test A b' a = Inr v"
  proof -
    have "Test A b' a = Inr (bit (mem_map b' ! index) n)"
      using valid has store by (simp add: Test_bit b'_def index_def n_def)
    then show ?thesis using nth[OF idx] bitnew[of n] by simp
  qed
  have t: "Test A b a = Inr (bit (mem_map b ! index) n)"
    using valid has store by (simp add: Test_bit index_def n_def)
  have same: "same_bits_except b b' index n"
    unfolding same_bits_except_def
  proof (intro conjI allI impI)
    fix i j assume h: "i < length (mem_map b) \<and> (i \<noteq> index \<or> j \<noteq> n)"
    then show "bit (mem_map b' ! i) j = bit (mem_map b ! i) j"
      using nth[of i] bitnew[of j] by (auto simp: old_def)
  qed (simp_all add: b'_def)
  show ?thesis using m inv' t' t same by blast
qed

lemma bitmap_1k_inv: "SpaceBitmap_inv 8 (bitmap_1k [w0, w1])"
  by (simp add: SpaceBitmap_inv_def bitmap_1k_def IsValid_def ComputeBitmapSize_def)

text \<open>
  C4: on a bitmap in use and for an address \<open>a\<close> in \<open>[heap_begin, heap_limit)\<close>,
  \<open>HasAddress a\<close> holds, \<open>Set a\<close> returns and \<open>Test a\<close> is then true, \<open>Clear a\<close> returns
  and \<open>Test a\<close> is then false, and either call leaves the bounds and every bit other than
  the bit of \<open>a\<close> as they were.
\<close>

theorem Set_Clear_then_Test:
  assumes "SpaceBitmap_inv A b" "heap_begin b \<le> a" "a < heap_limit b"
  shows "HasAddress A b a \<and>
         (\<exists>r b'. Set A b a = Inr (r, b') \<and> Test A b' a = Inr True \<and>
            same_bits_except b b' (unat (OffsetToIndex A (a - heap_begin b)))
              (unat (OffsetBitIndex A (a - heap_begin b)))) \<and>
         (\<exists>r b'. Clear A b a = Inr (r, b') \<and> Test A b' a = Inr False \<and>
            same_bits_except b b' (unat (OffsetToIndex A (a - heap_begin b)))
              (unat (OffsetBitIndex A (a - heap_begin b))))"
proof (intro conjI)
  show "HasAddress A b a" using assms by (rule in_range_HasAddress)
next
  obtain b' where
    "Modify True A b a =
       Inr (bit (mem_map b ! unat (OffsetToIndex A (a - heap_begin b)))
                (unat (OffsetBitIndex A (a - heap_begin b))), b')"
    "Test A b' a = Inr True"
    "same_bits_except b b' (unat (OffsetToIndex A (a - heap_begin b)))
       (unat (OffsetBitIndex A (a - heap_begin b)))"
    using Modify_ok[OF assms, of True] by blast
  then show "\<exists>r b'. Set A b a = Inr (r, b') \<and> Test A b' a = Inr True \<and>
            same_bits_except b b' (unat (OffsetToIndex A (a - heap_begin b)))
              (unat (OffsetBitIndex A (a - heap_begin b)))"
    unfolding Set_def by (intro exI conjI)
next
  obtain b' where
    "Modify False A b a =
       Inr (bit (mem_map b ! unat (OffsetToIndex A (a - heap_begin b)))
                (unat (OffsetBitIndex A (a - heap_begin b))), b')"
    "Test A b' a = Inr False"
    "same_bits_except b b' (unat (OffsetToIndex A (a - heap_begin b)))
       (unat (OffsetBitIndex A (a - heap_begin b)))"
    using Modify_ok[OF assms, of False] by blast
  then show "\<exists>r b'. Clear A b a = Inr (r, b') \<and> Test A b' a = Inr False \<and>
            same_bits_except b b' (unat (OffsetToIndex A (a - heap_begin b)))
              (unat (OffsetBitIndex A (a - heap_begin b)))"
    unfolding Clear_def by (intro exI conjI)
qed

theorem Set_Clear_then_Test_witness:
  "SpaceBitmap_inv 8 (bitmap_1k [5, 2]) \<and>
   heap_begin (bitmap_1k [5, 2]) \<le> 0x1208 \<and> 0x1208 < heap_limit (bitmap_1k [5, 2]) \<and>
   (\<exists>r b'. Set 8 (bitmap_1k [5, 2]) 0x1208 = Inr (r, b') \<and> Test 8 b' 0x1208 = Inr True) \<and>
   (\<exists>r b'. Clear 8 (bitmap_1k [5, 2]) 0x1208 = Inr (r, b') \<and> Test 8 b' 0x1208 = Inr False) \<and>
   Set 8 (bitmap_1k [5, 2]) 0x1210 = Inr (False, bitmap_1k [5, 6]) \<and>
   Clear 8 (bitmap_1k [5, 2]) 0x1208 = Inr (True, bitmap_1k [5, 0])"
proof -
  have inv: "SpaceBitmap_inv 8 (bitmap_1k [5, 2])" by (rule bitmap_1k_inv)
  have lo: "heap_begin (bitmap_1k [5, 2]) \<le> 0x1208"
    and hi: "0x1208 < heap_limit (bitmap_1k [5, 2])"
    by (simp_all add: bitmap_1k_def)
  have s: "Set 8 (bitmap_1k [5, 2]) 0x1210 = Inr (False, bitmap_1k [5, 6])"
    by (simp add: Set_def Modify_def bitmap_1k_def IsValid_def HasAddress_def OffsetToIndex_def
        OffsetToMask_def OffsetBitIndex_def kBitsPerIntPtrT_def sizeof_intptr_t_def)
  have c: "Clear 8 (bitmap_1k [5, 2]) 0x1208 = Inr (True, bitmap_1k [5, 0])"
    by (simp add: Clear_def Modify_def bitmap_1k_def IsValid_def HasAddress_def OffsetToIndex_def
        OffsetToMask_def OffsetBitIndex_def kBitsPerIntPtrT_def sizeof_intptr_t_def)
  show ?thesis
    using inv lo hi s c Set_Clear_then_Test[OF inv lo hi] by blast
qed

text \<open>
  C5: on a bitmap in use and for an address \<open>a\<close> in \<open>[heap_begin, heap_limit)\<close>, \<open>Set a\<close>
  returns the value \<open>Test a\<close> had before the call; from a clear bit, two calls of
  \<open>Set a\<close> return false and then true.
\<close>

theorem Set_returns_previous_bit:
  assumes "SpaceBitmap_inv A b" "heap_begin b \<le> a" "a < heap_limit b"
  shows "(\<exists>prev b'. Test A b a = Inr prev \<and> Set A b a = Inr (prev, b')) \<and>
         (Test A b a = Inr False \<longrightarrow>
            (\<exists>b1 b2. Set A b a = Inr (False, b1) \<and> Set A b1 a = Inr (True, b2)))"
proof -
  obtain b1 where
    m1: "Modify True A b a =
       Inr (bit (mem_map b ! unat (OffsetToIndex A (a - heap_begin b)))
                (unat (OffsetBitIndex A (a - heap_begin b))), b1)"
    and inv1: "SpaceBitmap_inv A b1"
    and t1: "Test A b1 a = Inr True"
    and t0: "Test A b a = Inr (bit (mem_map b ! unat (OffsetToIndex A (a - heap_begin b)))
                (unat (OffsetBitIndex A (a - heap_begin b))))"
    and same: "same_bits_except b b1 (unat (OffsetToIndex A (a - heap_begin b)))
       (unat (OffsetBitIndex A (a - heap_begin b)))"
    using Modify_ok[OF assms, of True] by blast
  have 1: "\<exists>prev b'. Test A b a = Inr prev \<and> Set A b a = Inr (prev, b')"
    unfolding Set_def using t0 m1 by (intro exI conjI)
  have r1: "heap_begin b1 \<le> a" "a < heap_limit b1"
    using same assms(2,3) by (simp_all add: same_bits_except_def)
  obtain b2 where
    m2: "Modify True A b1 a =
       Inr (bit (mem_map b1 ! unat (OffsetToIndex A (a - heap_begin b1)))
                (unat (OffsetBitIndex A (a - heap_begin b1))), b2)"
    and t1': "Test A b1 a = Inr (bit (mem_map b1 ! unat (OffsetToIndex A (a - heap_begin b1)))
                (unat (OffsetBitIndex A (a - heap_begin b1))))"
    using Modify_ok[OF inv1 r1, of True] by blast
  have s2: "Set A b1 a = Inr (True, b2)"
    unfolding Set_def using m2 t1 t1' by simp
  have 2: "Test A b a = Inr False \<longrightarrow>
            (\<exists>b1 b2. Set A b a = Inr (False, b1) \<and> Set A b1 a = Inr (True, b2))"
  proof
    assume "Test A b a = Inr False"
    then have "Set A b a = Inr (False, b1)" unfolding Set_def using t0 m1 by simp
    then show "\<exists>b1 b2. Set A b a = Inr (False, b1) \<and> Set A b1 a = Inr (True, b2)"
      using s2 by (intro exI conjI)
  qed
  show ?thesis using 1 2 by (rule conjI)
qed

theorem Set_returns_previous_bit_witness:
  "SpaceBitmap_inv 8 (bitmap_1k [0, 0]) \<and>
   heap_begin (bitmap_1k [0, 0]) \<le> 0x1208 \<and> 0x1208 < heap_limit (bitmap_1k [0, 0]) \<and>
   Test 8 (bitmap_1k [0, 0]) 0x1208 = Inr False \<and>
   Set 8 (bitmap_1k [0, 0]) 0x1208 = Inr (False, bitmap_1k [0, 2]) \<and>
   Set 8 (bitmap_1k [0, 2]) 0x1208 = Inr (True, bitmap_1k [0, 2]) \<and>
   (\<exists>b1 b2. Set 8 (bitmap_1k [0, 0]) 0x1208 = Inr (False, b1) \<and> Set 8 b1 0x1208 = Inr (True, b2))"
proof -
  have inv: "SpaceBitmap_inv 8 (bitmap_1k [0, 0])" by (rule bitmap_1k_inv)
  have lo: "heap_begin (bitmap_1k [0, 0]) \<le> 0x1208"
    and hi: "0x1208 < heap_limit (bitmap_1k [0, 0])"
    by (simp_all add: bitmap_1k_def)
  have t: "Test 8 (bitmap_1k [0, 0]) 0x1208 = Inr False"
    by (simp add: Test_def bitmap_1k_def IsValid_def HasAddress_def OffsetToIndex_def
        kBitsPerIntPtrT_def sizeof_intptr_t_def)
  have s1: "Set 8 (bitmap_1k [0, 0]) 0x1208 = Inr (False, bitmap_1k [0, 2])"
    by (simp add: Set_def Modify_def bitmap_1k_def IsValid_def HasAddress_def OffsetToIndex_def
        OffsetToMask_def OffsetBitIndex_def kBitsPerIntPtrT_def sizeof_intptr_t_def)
  have s2: "Set 8 (bitmap_1k [0, 2]) 0x1208 = Inr (True, bitmap_1k [0, 2])"
    by (simp add: Set_def Modify_def bitmap_1k_def IsValid_def HasAddress_def OffsetToIndex_def
        OffsetToMask_def OffsetBitIndex_def kBitsPerIntPtrT_def sizeof_intptr_t_def)
  show ?thesis
    using inv lo hi t s1 s2 Set_returns_previous_bit[OF inv lo hi] by blast
qed

section \<open>Bit extraction from a word\<close>

lemma word_neq0_bit: "(w :: 64 word) \<noteq> 0 \<Longrightarrow> \<exists>i<64. bit w i"
proof (rule ccontr)
  assume nz: "w \<noteq> 0" and "\<not> (\<exists>i<64. bit w i)"
  then have "w = 0" by (intro bit_eqI) (auto dest: bit_imp_le_length)
  then show False using nz by simp
qed

lemma CTZ_below: "i < CTZ w \<Longrightarrow> \<not> bit w i"
proof -
  assume h: "i < CTZ w"
  let ?t = "takeWhile (\<lambda>i. \<not> bit w i) [0..<64]"
  have l: "i < length ?t" using h by (simp add: CTZ_def)
  then have "?t ! i \<in> set ?t" by (rule nth_mem)
  then have "\<not> bit w (?t ! i)" by (auto dest: set_takeWhileD)
  moreover have "?t ! i = [0..<64] ! i" using l by (rule takeWhile_nth)
  moreover have "i < 64" using l length_takeWhile_le[of "\<lambda>i. \<not> bit w i" "[0..<64]"] by simp
  ultimately show ?thesis by simp
qed

lemma CTZ_le: "CTZ w \<le> 64"
  using length_takeWhile_le[of "\<lambda>i. \<not> bit w i" "[0..<64]"] by (simp add: CTZ_def)

lemma CTZ_bit:
  assumes "w \<noteq> 0"
  shows "CTZ w < 64" and "bit w (CTZ w)"
proof -
  obtain i where i: "i < 64" "bit w i" using word_neq0_bit[OF assms] by blast
  have "\<not> i < CTZ w" using i(2) CTZ_below by blast
  then show lt: "CTZ w < 64" using i(1) by simp
  then have "CTZ w < length [0..<64]" by simp
  then have "\<not> \<not> bit w ([0..<64] ! CTZ w)"
    unfolding CTZ_def by (rule nth_length_takeWhile)
  then show "bit w (CTZ w)" using lt by simp
qed

lemma bit_pow2_64: "n < 64 \<Longrightarrow> bit (2 ^ n :: 64 word) j \<longleftrightarrow> j = n"
  by (auto simp: bit_simps)

lemma bit_clear_lowest:
  assumes "w \<noteq> 0" "i < 64"
  shows "bit (w XOR push_bit (CTZ w) 1) i \<longleftrightarrow> i \<noteq> CTZ w \<and> bit w i"
  using CTZ_bit[OF assms(1)] assms(2) by (auto simp: bit_xor_iff bit_pow2_64)

lemma set_bits_step:
  assumes "w \<noteq> 0"
  shows "filter (bit w) [0..<64] =
           CTZ w # filter (bit (w XOR push_bit (CTZ w) 1)) [0..<64]"
proof -
  let ?c = "CTZ w" and ?w' = "w XOR push_bit (CTZ w) 1"
  have c: "?c < 64" "bit w ?c" using CTZ_bit[OF assms] by blast+
  have "[0..<?c + (64 - ?c)] = [0..<?c] @ [?c..<?c + (64 - ?c)]"
    by (rule upt_add_eq_append) simp
  then have "[0..<64] = [0..<?c] @ [?c..<64]" using c(1) by simp
  then have split: "[0..<64] = [0..<?c] @ ?c # [Suc ?c..<64]"
    using c(1) by (simp only: upt_conv_Cons)
  have lo: "filter (bit w) [0..<?c] = []" "filter (bit ?w') [0..<?c] = []"
    using bit_clear_lowest[OF assms] c(1) by (auto simp: filter_empty_conv CTZ_below)
  have hi: "filter (bit ?w') [Suc ?c..<64] = filter (bit w) [Suc ?c..<64]"
    using bit_clear_lowest[OF assms] by (intro filter_cong) auto
  have mid: "\<not> bit ?w' ?c" using bit_clear_lowest[OF assms c(1)] by simp
  have "filter (bit w) [0..<64] = filter (bit w) ([0..<?c] @ ?c # [Suc ?c..<64])"
    using split by simp
  also have "\<dots> = ?c # filter (bit w) [Suc ?c..<64]"
    using lo(1) c(2) by simp
  finally have 1: "filter (bit w) [0..<64] = ?c # filter (bit w) [Suc ?c..<64]" .
  have "filter (bit ?w') [0..<64] = filter (bit ?w') ([0..<?c] @ ?c # [Suc ?c..<64])"
    using split by simp
  also have "\<dots> = filter (bit w) [Suc ?c..<64]"
    using lo(2) mid hi by simp
  finally show ?thesis using 1 by simp
qed

lemma VisitWordBits_eq:
  "VisitWordBits A ptr_base visitor w s =
     foldl visitor s (map (\<lambda>j. ptr_base + of_nat j * A) (filter (bit w) [0..<64]))"
proof (induction A ptr_base visitor w s rule: VisitWordBits.induct)
  case (1 A ptr_base visitor w s)
  show ?case
  proof (cases "w = 0")
    case True
    then show ?thesis by (simp add: VisitWordBits.simps)
  next
    case False
    have "VisitWordBits A ptr_base visitor w s =
          VisitWordBits A ptr_base visitor (w XOR push_bit (CTZ w) 1)
            (visitor s (ptr_base + of_nat (CTZ w) * A))"
      using False by (subst VisitWordBits.simps) (simp add: Let_def)
    also have "\<dots> = foldl visitor (visitor s (ptr_base + of_nat (CTZ w) * A))
         (map (\<lambda>j. ptr_base + of_nat j * A) (filter (bit (w XOR push_bit (CTZ w) 1)) [0..<64]))"
      using "1.IH"[OF False refl] .
    also have "\<dots> = foldl visitor s (map (\<lambda>j. ptr_base + of_nat j * A) (filter (bit w) [0..<64]))"
      by (simp only: set_bits_step[OF False] list.map foldl_Cons)
    finally show ?thesis .
  qed
qed

section \<open>Visiting the marked slots of a range\<close>

lemma filter_range:
  "filter (\<lambda>i. l \<le> i \<and> i < u \<and> P i) [0..<n] = filter P [l..<min u n]"
proof (induction n)
  case 0
  then show ?case by simp
next
  case (Suc n)
  show ?case
  proof (cases "u \<le> n")
    case True
    then show ?thesis using Suc by (simp add: min_def)
  next
    case False
    then have m: "min u (Suc n) = Suc n" "min u n = n" by simp_all
    show ?thesis using Suc False by (simp add: m)
  qed
qed

lemma set_bits_left_edge:
  "filter (bit ((w :: 64 word) AND NOT (mask l))) [0..<64] = filter (bit w) [l..<64]"
proof -
  have "filter (bit (w AND NOT (mask l))) [0..<64] =
        filter (\<lambda>i. l \<le> i \<and> i < 64 \<and> bit w i) [0..<64]"
    by (intro filter_cong) (auto simp: bit_and_iff bit_not_iff bit_mask_iff)
  then show ?thesis by (simp only: filter_range) simp
qed

lemma set_bits_both_edges:
  assumes "u \<le> 64"
  shows "filter (bit (((w :: 64 word) AND NOT (mask l)) AND mask u)) [0..<64] =
         filter (bit w) [l..<u]"
proof -
  have "filter (bit ((w AND NOT (mask l)) AND mask u)) [0..<64] =
        filter (\<lambda>i. l \<le> i \<and> i < u \<and> bit w i) [0..<64]"
    by (intro filter_cong) (auto simp: bit_and_iff bit_not_iff bit_mask_iff)
  then show ?thesis using assms by (simp only: filter_range) (simp add: min_def)
qed

lemma set_bits_right_edge:
  assumes "u \<le> 64"
  shows "filter (bit ((w :: 64 word) AND mask u)) [0..<64] = filter (bit w) [0..<u]"
proof -
  have "filter (bit (w AND mask u)) [0..<64] =
        filter (\<lambda>i. 0 \<le> i \<and> i < u \<and> bit w i) [0..<64]"
    by (intro filter_cong) (auto simp: bit_and_iff bit_mask_iff)
  then show ?thesis using assms by (simp only: filter_range) (simp add: min_def)
qed

lemma upt_shift: "[n + l..<n + u] = map (\<lambda>j. n + j) [l..<u]"
  by (induction u) (auto simp: upt_rec[of "n + l" "n + _"])

lemma SlotAddr_word: "SlotAddr A b (64 * i + j) = WordBase A b i + of_nat j * A"
  by (simp add: SlotAddr_def WordBase_def IndexToOffset_def kBitsPerIntPtrT_def algebra_simps)

lemma SlotMarked_word: "j < 64 \<Longrightarrow> SlotMarked b (64 * i + j) = bit (mem_map b ! i) j"
  by (simp add: SlotMarked_def)

lemma word_segment:
  assumes "u \<le> 64"
  shows "map (\<lambda>j. WordBase A b i + of_nat j * A) (filter (bit (mem_map b ! i)) [l..<u]) =
         map (SlotAddr A b) (filter (SlotMarked b) [64 * i + l..<64 * i + u])"
proof -
  have f: "filter (\<lambda>j. SlotMarked b (64 * i + j)) [l..<u] = filter (bit (mem_map b ! i)) [l..<u]"
    using assms by (intro filter_cong) (auto simp: SlotMarked_word)
  have "map (SlotAddr A b) (filter (SlotMarked b) [64 * i + l..<64 * i + u]) =
        map (SlotAddr A b) (map (\<lambda>j. 64 * i + j) (filter (SlotMarked b \<circ> (\<lambda>j. 64 * i + j)) [l..<u]))"
    by (simp only: upt_shift filter_map)
  also have "\<dots> = map (\<lambda>j. SlotAddr A b (64 * i + j)) (filter (\<lambda>j. SlotMarked b (64 * i + j)) [l..<u])"
    by (simp only: map_map comp_def)
  also have "\<dots> = map (\<lambda>j. WordBase A b i + of_nat j * A) (filter (bit (mem_map b ! i)) [l..<u])"
    by (simp only: f SlotAddr_word)
  finally show ?thesis by (rule sym)
qed

lemma VisitWordBits_segment:
  assumes "u \<le> 64" "filter (bit w) [0..<64] = filter (bit (mem_map b ! i)) [l..<u]"
  shows "VisitWordBits A (WordBase A b i) visitor w s =
         foldl visitor s (map (SlotAddr A b) (filter (SlotMarked b) [64 * i + l..<64 * i + u]))"
  by (simp only: VisitWordBits_eq assms(2) word_segment[OF assms(1)])

lemma VisitWordBits_whole_word:
  "VisitWordBits A (WordBase A b i) visitor (mem_map b ! i) s =
   foldl visitor s (map (SlotAddr A b) (filter (SlotMarked b) [64 * i..<64 * i + 64]))"
proof -
  have "VisitWordBits A (WordBase A b i) visitor (mem_map b ! i) s =
   foldl visitor s (map (SlotAddr A b) (filter (SlotMarked b) [64 * i + 0..<64 * i + 64]))"
    by (rule VisitWordBits_segment) simp_all
  then show ?thesis by (simp only: add_0_right)
qed

lemma middle_words:
  assumes "i1 \<le> i2"
  shows "foldl (\<lambda>s i. VisitWordBits A (WordBase A b i) visitor (mem_map b ! i) s) s [i1..<i2] =
         foldl visitor s (map (SlotAddr A b) (filter (SlotMarked b) [64 * i1..<64 * i2]))"
  using assms
proof (induction i2)
  case 0
  then show ?case by simp
next
  case (Suc i2)
  show ?case
  proof (cases "i1 = Suc i2")
    case True
    then show ?thesis by simp
  next
    case False
    then have le: "i1 \<le> i2" using Suc.prems by simp
    have "[64 * i1..<64 * i2 + 64] = [64 * i1..<64 * i2] @ [64 * i2..<64 * i2 + 64]"
      using le by (intro upt_add_eq_append) simp
    moreover have "64 * Suc i2 = 64 * i2 + 64" by simp
    ultimately have sp: "[64 * i1..<64 * Suc i2] = [64 * i1..<64 * i2] @ [64 * i2..<64 * i2 + 64]"
      by (simp only:)
    show ?thesis
      using le Suc.IH[OF le]
      by (simp only: upt_Suc_append foldl_append foldl.simps sp filter_append map_append
          VisitWordBits_whole_word)
  qed
qed

lemma upt_split: "l \<le> m \<Longrightarrow> m \<le> u \<Longrightarrow> [l..<u] = [l..<m] @ [m..<u]"
  using upt_add_eq_append[of l m "u - m"] by simp

lemma VisitMarkedRange_scan:
  assumes "IsValid b" "heap_begin b \<le> vb" "vb \<le> ve" "ve \<le> heap_limit b"
    and "SlotCeil A (ve - heap_begin b) \<le> 64 * length (mem_map b)"
  shows "VisitMarkedRange A b vb ve visitor s =
         Inr (foldl visitor s (map (SlotAddr A b) (filter (SlotMarked b)
                [SlotCeil A (vb - heap_begin b)..<SlotCeil A (ve - heap_begin b)])))"
proof -
  define ss where "ss = SlotCeil A (vb - heap_begin b)"
  define se where "se = SlotCeil A (ve - heap_begin b)"
  define bs where "bs = ss mod 64"
  define be where "be = se mod 64"
  define i1 where "i1 = ss div 64"
  define i2 where "i2 = se div 64"
  have ss: "ss = 64 * i1 + bs" and se: "se = 64 * i2 + be"
    by (simp_all add: bs_def be_def i1_def i2_def)
  have b64: "bs < 64" "be < 64" by (simp_all add: bs_def be_def)
  let ?L = "\<lambda>l u. map (SlotAddr A b) (filter (SlotMarked b) [l..<u])"
  let ?left = "(mem_map b ! i1) AND NOT (mask bs)"
  let ?right = "(if be = 0 then 0 else mem_map b ! i2) AND mask be"
  have unfold: "VisitMarkedRange A b vb ve visitor s =
     (if se \<le> ss then Inr s
      else if i1 < i2
        then Inr (VisitWordBits A (WordBase A b i2) visitor ?right
               (foldl (\<lambda>s i. VisitWordBits A (WordBase A b i) visitor (mem_map b ! i) s)
                  (VisitWordBits A (WordBase A b i1) visitor ?left s) [Suc i1..<i2]))
        else Inr (VisitWordBits A (WordBase A b i1) visitor (?left AND mask be) s))"
    using assms
    by (simp add: VisitMarkedRange_def Let_def ss_def se_def bs_def be_def i1_def i2_def)
  show ?thesis
  proof (cases "se \<le> ss")
    case True
    then show ?thesis using unfold by (simp add: ss_def se_def)
  next
    case False
    then have lt: "ss < se" by simp
    then have i12: "i1 \<le> i2" by (simp add: i1_def i2_def div_le_mono)
    show ?thesis
    proof (cases "i1 < i2")
      case True
      have left: "VisitWordBits A (WordBase A b i1) visitor ?left s =
                  foldl visitor s (?L ss (64 * i1 + 64))"
        unfolding ss by (rule VisitWordBits_segment) (simp_all add: set_bits_left_edge)
      have mid: "foldl (\<lambda>s i. VisitWordBits A (WordBase A b i) visitor (mem_map b ! i) s) t
                   [Suc i1..<i2] = foldl visitor t (?L (64 * Suc i1) (64 * i2))" for t
        using True by (intro middle_words) simp
      have fr: "filter (bit ?right) [0..<64] = filter (bit (mem_map b ! i2)) [0..<be]"
        using b64(2) by (cases "be = 0") (simp_all add: set_bits_right_edge)
      have right: "VisitWordBits A (WordBase A b i2) visitor ?right t =
                   foldl visitor t (?L (64 * i2) se)" for t
      proof -
        have "VisitWordBits A (WordBase A b i2) visitor ?right t =
                   foldl visitor t (?L (64 * i2 + 0) (64 * i2 + be))"
          using b64(2) fr by (intro VisitWordBits_segment) simp_all
        then show ?thesis by (simp only: se add_0_right)
      qed
      have "ss \<le> 64 * i1 + 64" using b64(1) by (simp add: ss)
      moreover have "64 * i1 + 64 \<le> 64 * i2" using True by simp
      moreover have "64 * i2 \<le> se" by (simp add: se)
      ultimately have split: "[ss..<se] = [ss..<64 * i1 + 64] @ [64 * i1 + 64..<64 * i2] @ [64 * i2..<se]"
        using upt_split[of ss "64 * i1 + 64" se] upt_split[of "64 * i1 + 64" "64 * i2" se]
        by simp
      have e: "64 * Suc i1 = 64 * i1 + 64" by simp
      have "VisitMarkedRange A b vb ve visitor s = Inr (foldl visitor s (?L ss se))"
        using False True
        by (simp only: unfold if_False if_True left mid right split filter_append map_append
            foldl_append e)
      then show ?thesis by (simp only: ss_def se_def)
    next
      case False
      then have eq: "i2 = i1" using i12 by simp
      have "VisitWordBits A (WordBase A b i1) visitor (?left AND mask be) s =
            foldl visitor s (?L (64 * i1 + bs) (64 * i1 + be))"
        using b64(2) by (intro VisitWordBits_segment) (simp_all add: set_bits_both_edges)
      then have "VisitMarkedRange A b vb ve visitor s = Inr (foldl visitor s (?L ss se))"
        using False lt by (simp add: unfold ss se eq)
      then show ?thesis by (simp only: ss_def se_def)
    qed
  qed
qed

lemma SlotCeil_le_iff:
  "A \<noteq> 0 \<Longrightarrow> SlotCeil A off \<le> k \<longleftrightarrow> unat off \<le> k * unat A"
  unfolding SlotCeil_def by (rule ceil_le_iff) (simp add: unat_gt_0)

lemma SlotCeil_gt_iff:
  "A \<noteq> 0 \<Longrightarrow> k < SlotCeil A off \<longleftrightarrow> k * unat A < unat off"
  unfolding SlotCeil_def by (rule lt_ceil_iff) (simp add: unat_gt_0)

lemma slot_in_space:
  assumes "SpaceBitmap_inv A b" "k < 64 * (unat (bitmap_size b) div 8)"
  shows "unat (heap_begin b) + k * unat A < 2 ^ 64"
proof -
  have A: "0 < unat A" using SpaceBitmap_invD(1)[OF assms(1)] by (simp add: unat_gt_0)
  have "k * unat A < 64 * (unat (bitmap_size b) div 8) * unat A"
    using assms(2) A by simp
  moreover have "64 * (unat (bitmap_size b) div 8) * unat A = unat (bitmap_size b) div 8 * unat A * 64"
    by simp
  ultimately show ?thesis using SpaceBitmap_invD(6)[OF assms(1)] by linarith
qed

lemma unat_SlotAddr:
  assumes "SpaceBitmap_inv A b" "k < 64 * (unat (bitmap_size b) div 8)"
  shows "unat (SlotAddr A b k) = unat (heap_begin b) + k * unat A"
  unfolding SlotAddr_def using slot_in_space[OF assms] by (rule unat_slot_addr)

lemma SlotAddr_offset:
  assumes "SpaceBitmap_inv A b" "k < 64 * (unat (bitmap_size b) div 8)"
  shows "heap_begin b \<le> SlotAddr A b k"
    and "unat (SlotAddr A b k - heap_begin b) = k * unat A"
proof -
  show le: "heap_begin b \<le> SlotAddr A b k"
    by (simp add: word_le_nat_alt unat_SlotAddr[OF assms])
  show "unat (SlotAddr A b k - heap_begin b) = k * unat A"
    using le by (simp add: unat_sub unat_SlotAddr[OF assms])
qed

lemma Test_SlotAddr:
  assumes "SpaceBitmap_inv A b" "k < 64 * (unat (bitmap_size b) div 8)"
  shows "Test A b (SlotAddr A b k) = Inr (SlotMarked b k)"
proof -
  note inv = SpaceBitmap_invD[OF assms(1)]
  have A: "0 < unat A" using inv(1) by (simp add: unat_gt_0)
  have "k * unat A < 64 * (unat (bitmap_size b) div 8) * unat A"
    using assms(2) A by simp
  then have "unat (SlotAddr A b k) <
             unat (heap_begin b) + unat (bitmap_size b) div 8 * unat A * 64"
    by (simp add: unat_SlotAddr[OF assms])
  then have has: "HasAddress A b (SlotAddr A b k)"
    using SlotAddr_offset(1)[OF assms] by (simp only: HasAddress_iff[OF inv(1) inv(6)])
  have i: "unat (OffsetToIndex A (SlotAddr A b k - heap_begin b)) = k div 64"
    using A by (simp add: unat_OffsetToIndex SlotAddr_offset(2)[OF assms])
  have j: "unat (OffsetBitIndex A (SlotAddr A b k - heap_begin b)) = k mod 64"
    using A by (simp add: unat_OffsetBitIndex SlotAddr_offset(2)[OF assms])
  show ?thesis
    using Test_bit[OF inv(2) has inv(5)] by (simp only: i j SlotMarked_def)
qed

lemma SlotAddr_sorted:
  assumes "SpaceBitmap_inv A b" "u \<le> 64 * (unat (bitmap_size b) div 8)"
  shows "sorted_wrt (<) (map (SlotAddr A b) (filter P [l..<u]))"
proof -
  have A: "0 < unat A" using SpaceBitmap_invD(1)[OF assms(1)] by (simp add: unat_gt_0)
  have s: "sorted_wrt (<) (filter P [l..<u])" by (intro sorted_wrt_filter) simp
  have "sorted_wrt (\<lambda>x y. SlotAddr A b x < SlotAddr A b y) (filter P [l..<u])"
  proof (rule sorted_wrt_mono_rel[OF _ s])
    fix x y assume "x \<in> set (filter P [l..<u])" "y \<in> set (filter P [l..<u])" "x < y"
    then have "x < 64 * (unat (bitmap_size b) div 8)" "y < 64 * (unat (bitmap_size b) div 8)"
      and "x * unat A < y * unat A"
      using assms(2) A by simp_all
    then show "SlotAddr A b x < SlotAddr A b y"
      by (simp add: word_less_nat_alt unat_SlotAddr[OF assms(1)])
  qed
  then show ?thesis by (simp only: sorted_wrt_map)
qed

lemma SlotAddr_of_aligned:
  assumes "unat A dvd unat (a - heap_begin b)"
  shows "SlotAddr A b (unat (a - heap_begin b) div unat A) = a"
proof -
  let ?k = "unat (a - heap_begin b) div unat A"
  have "?k * unat A = unat (a - heap_begin b)" using assms by simp
  then have "of_nat (?k * unat A) = (of_nat (unat (a - heap_begin b)) :: 64 word)" by simp
  then have "of_nat ?k * A = a - heap_begin b" by simp
  then show ?thesis by (simp add: SlotAddr_def)
qed

lemma range_slots_in_store:
  assumes "SpaceBitmap_inv A b" "heap_begin b \<le> ve" "ve \<le> heap_limit b"
  shows "SlotCeil A (ve - heap_begin b) \<le> 64 * (unat (bitmap_size b) div 8)"
proof -
  note inv = SpaceBitmap_invD[OF assms(1)]
  have "unat (ve - heap_begin b) = unat ve - unat (heap_begin b)"
    using assms(2) by (simp add: unat_sub)
  moreover have "unat ve \<le> unat (heap_limit b)" using assms(3) by (simp add: word_le_nat_alt)
  ultimately have "unat (ve - heap_begin b) \<le> unat (bitmap_size b) div 8 * unat A * 64"
    using capacity_le_covered[OF assms(1)] inv_capacity_nat[OF assms(1)] by linarith
  moreover have "unat (bitmap_size b) div 8 * unat A * 64 = 64 * (unat (bitmap_size b) div 8) * unat A"
    by simp
  ultimately show ?thesis by (simp only: SlotCeil_le_iff[OF inv(1)])
qed

text \<open>
  C2: on a bitmap in use and for \<open>heap_begin \<le> visit_begin \<le> visit_end \<le> heap_limit\<close>,
  \<open>VisitMarkedRange\<close> returns after calling the visitor on a list of addresses \<open>L\<close> that
  is strictly ascending, hence without repetition, and whose members are exactly the
  addresses of \<open>[visit_begin, visit_end)\<close> that are aligned slots and whose bit is set.
\<close>

theorem VisitMarkedRange_visits_marked:
  assumes "SpaceBitmap_inv A b"
    and "heap_begin b \<le> visit_begin" "visit_begin \<le> visit_end" "visit_end \<le> heap_limit b"
  shows "\<exists>L. (\<forall>(visitor :: 's \<Rightarrow> uintptr_t \<Rightarrow> 's) s.
                  VisitMarkedRange A b visit_begin visit_end visitor s =
                    Inr (foldl visitor s L)) \<and>
             sorted_wrt (<) L \<and> distinct L \<and>
             set L = {a. visit_begin \<le> a \<and> a < visit_end \<and>
                         unat A dvd unat (a - heap_begin b) \<and> Test A b a = Inr True}"
proof -
  note inv = SpaceBitmap_invD[OF assms(1)]
  define N where "N = unat (bitmap_size b) div 8"
  define ss where "ss = SlotCeil A (visit_begin - heap_begin b)"
  define se where "se = SlotCeil A (visit_end - heap_begin b)"
  define L where "L = map (SlotAddr A b) (filter (SlotMarked b) [ss..<se])"
  have hbe: "heap_begin b \<le> visit_end" using assms(2,3) by (rule order_trans)
  have seN: "se \<le> 64 * N"
    unfolding se_def N_def using assms(1) hbe assms(4) by (rule range_slots_in_store)
  then have guard: "se \<le> 64 * length (mem_map b)" using inv(5) by (simp add: N_def)
  have ub: "unat (visit_begin - heap_begin b) = unat visit_begin - unat (heap_begin b)"
    and ue: "unat (visit_end - heap_begin b) = unat visit_end - unat (heap_begin b)"
    and hb_le: "unat (heap_begin b) \<le> unat visit_begin" "unat (heap_begin b) \<le> unat visit_end"
    using assms(2) hbe by (simp_all add: unat_sub word_le_nat_alt)
  have 1: "\<forall>(visitor :: 's \<Rightarrow> uintptr_t \<Rightarrow> 's) s.
              VisitMarkedRange A b visit_begin visit_end visitor s = Inr (foldl visitor s L)"
  proof (intro allI)
    fix visitor :: "'s \<Rightarrow> 64 word \<Rightarrow> 's" and s
    show "VisitMarkedRange A b visit_begin visit_end visitor s = Inr (foldl visitor s L)"
      using VisitMarkedRange_scan[OF inv(2) assms(2,3,4) guard[unfolded se_def], of visitor s]
      by (simp add: L_def ss_def se_def)
  qed
  have 2: "sorted_wrt (<) L"
    unfolding L_def using assms(1) seN[unfolded N_def] by (rule SlotAddr_sorted)
  then have d: "distinct L" by (simp add: strict_sorted_iff)
  have 3: "set L = {a. visit_begin \<le> a \<and> a < visit_end \<and>
                       unat A dvd unat (a - heap_begin b) \<and> Test A b a = Inr True}"
  proof (intro set_eqI iffI)
    fix x assume "x \<in> set L"
    then obtain k where k: "x = SlotAddr A b k" "ss \<le> k" "k < se" "SlotMarked b k"
      by (auto simp: L_def)
    have kN: "k < 64 * (unat (bitmap_size b) div 8)" using k(3) seN by (simp add: N_def)
    have ux: "unat x = unat (heap_begin b) + k * unat A"
      unfolding k(1) using assms(1) kN by (rule unat_SlotAddr)
    have "unat (visit_begin - heap_begin b) \<le> k * unat A"
      using k(2) by (simp add: ss_def SlotCeil_le_iff[OF inv(1)])
    then have a: "visit_begin \<le> x" using ub ux by (simp add: word_le_nat_alt)
    have "k * unat A < unat (visit_end - heap_begin b)"
      using k(3) by (simp add: se_def SlotCeil_gt_iff[OF inv(1)])
    then have b: "x < visit_end" using ue ux by (simp add: word_less_nat_alt)
    have c: "unat A dvd unat (x - heap_begin b)"
      unfolding k(1) by (simp add: SlotAddr_offset(2)[OF assms(1) kN])
    have d: "Test A b x = Inr True"
      unfolding k(1) using Test_SlotAddr[OF assms(1) kN] k(4) by simp
    show "x \<in> {a. visit_begin \<le> a \<and> a < visit_end \<and>
                 unat A dvd unat (a - heap_begin b) \<and> Test A b a = Inr True}"
      using a b c d by simp
  next
    fix x assume "x \<in> {a. visit_begin \<le> a \<and> a < visit_end \<and>
                 unat A dvd unat (a - heap_begin b) \<and> Test A b a = Inr True}"
    then have x: "visit_begin \<le> x" "x < visit_end" "unat A dvd unat (x - heap_begin b)"
      "Test A b x = Inr True" by simp_all
    define k where "k = unat (x - heap_begin b) div unat A"
    have xk: "SlotAddr A b k = x" unfolding k_def using x(3) by (rule SlotAddr_of_aligned)
    have kA: "k * unat A = unat (x - heap_begin b)" using x(3) by (simp add: k_def)
    have hx: "heap_begin b \<le> x" using assms(2) x(1) by (rule order_trans)
    have uxo: "unat (x - heap_begin b) = unat x - unat (heap_begin b)"
      using hx by (simp add: unat_sub)
    have "unat visit_begin \<le> unat x" "unat x < unat visit_end"
      using x(1,2) by (simp_all add: word_le_nat_alt word_less_nat_alt)
    then have "unat (visit_begin - heap_begin b) \<le> k * unat A"
      and "k * unat A < unat (visit_end - heap_begin b)"
      using ub ue hb_le uxo kA by linarith+
    then have k1: "ss \<le> k" and k2: "k < se"
      by (simp_all add: ss_def se_def SlotCeil_le_iff[OF inv(1)] SlotCeil_gt_iff[OF inv(1)])
    have kN: "k < 64 * (unat (bitmap_size b) div 8)" using k2 seN by (simp add: N_def)
    have "SlotMarked b k" using Test_SlotAddr[OF assms(1) kN] x(4) by (simp add: xk)
    then have "k \<in> set (filter (SlotMarked b) [ss..<se])" using k1 k2 by simp
    then have "SlotAddr A b k \<in> set L" unfolding L_def by (simp only: set_map) (rule imageI)
    then show "x \<in> set L" by (simp only: xk)
  qed
  show ?thesis using 1 2 d 3 by blast
qed

theorem VisitMarkedRange_visits_marked_witness:
  "SpaceBitmap_inv 8 (bitmap_1k [0x8000000000000005, 3]) \<and>
   heap_begin (bitmap_1k [0x8000000000000005, 3]) \<le> 0x1010 \<and>
   (0x1010 :: 64 word) \<le> 0x1210 \<and>
   0x1210 \<le> heap_limit (bitmap_1k [0x8000000000000005, 3]) \<and>
   VisitMarkedRange 8 (bitmap_1k [0x8000000000000005, 3]) 0x1010 0x1210 (\<lambda>s a. s @ [a]) [] =
     Inr [0x1010, 0x11F8, 0x1200, 0x1208] \<and>
   (\<exists>L. VisitMarkedRange 8 (bitmap_1k [0x8000000000000005, 3]) 0x1010 0x1210
           (\<lambda>s a. s @ [a]) [] = Inr (foldl (\<lambda>s a. s @ [a]) [] L) \<and>
        sorted_wrt (<) L \<and>
        set L = {a. 0x1010 \<le> a \<and> a < 0x1210 \<and>
                    unat (8 :: 64 word) dvd
                      unat (a - heap_begin (bitmap_1k [0x8000000000000005, 3])) \<and>
                    Test 8 (bitmap_1k [0x8000000000000005, 3]) a = Inr True})"
proof -
  have inv: "SpaceBitmap_inv 8 (bitmap_1k [0x8000000000000005, 3])" by (rule bitmap_1k_inv)
  have lo: "heap_begin (bitmap_1k [0x8000000000000005, 3]) \<le> 0x1010"
    and mid: "(0x1010 :: 64 word) \<le> 0x1210"
    and hi: "0x1210 \<le> heap_limit (bitmap_1k [0x8000000000000005, 3])"
    by (simp_all add: bitmap_1k_def)
  have run: "VisitMarkedRange 8 (bitmap_1k [0x8000000000000005, 3]) 0x1010 0x1210
               (\<lambda>s a. s @ [a]) [] = Inr [0x1010, 0x11F8, 0x1200, 0x1208]"
    by code_simp
  show ?thesis
    using inv lo mid hi run
      VisitMarkedRange_visits_marked[OF inv lo mid hi, where 's = "64 word list"]
    by blast
qed

section \<open>Sweeping two bitmaps\<close>





lemma SlotAddr_Garbage [simp]:
  "SlotAddr A (GarbageBitmap live mark ss se) = SlotAddr A live"
  by (simp add: SlotAddr_def GarbageBitmap_def fun_eq_iff)

lemma WordBase_Garbage [simp]:
  "WordBase A (GarbageBitmap live mark ss se) = WordBase A live"
  by (simp add: WordBase_def GarbageBitmap_def fun_eq_iff)














end
